theory Spec2Isabelle
  imports Complex_Main "HOL-Library.Monad_Syntax"
begin

section \<open>Constants and integer helpers\<close>

text \<open>
  The three thresholds are the macros at the head of filehdr.cc.
\<close>

definition OneLevelSize :: int where
  "OneLevelSize = 30 * 128"

definition TwoLevelSize :: int where
  "TwoLevelSize = 30 * 30 * 128"

definition ThreeLevelSize :: int where
  "ThreeLevelSize = 30 * 30 * 30 * 128"

text \<open>
  Modelled from the spec: disk.h and filehdr.h are not among the sources. Section 8 of the
  specification fixes the sector size S = 128 and the fan-out F = 30 (the number of
  entries of \<open>dataSectors\<close>), which are also the factors of the macros above.
\<close>

definition SectorSize :: int where
  "SectorSize = 128"

definition NumDirect :: nat where
  "NumDirect = 30"

text \<open>C's integer division and remainder truncate towards zero.\<close>

definition cdiv :: "int \<Rightarrow> int \<Rightarrow> int" where
  "cdiv a b = (if 0 \<le> a then (if 0 \<le> b then a div b else - (a div (- b)))
               else (if 0 \<le> b then - ((- a) div b) else (- a) div (- b)))"

definition cmod :: "int \<Rightarrow> int \<Rightarrow> int" where
  "cmod a b = a - cdiv a b * b"

text \<open>
  Modelled from the spec: utility.h, which holds the macros \<open>divRoundDown\<close> and
  \<open>divRoundUp\<close>, is not among the sources. The specification gives
  \<open>neededSectors = ceil(size / S)\<close>; the two macros are written here over C's
  truncating division, the quotient being raised by one when a positive remainder is left.
\<close>

definition divRoundDown :: "int \<Rightarrow> int \<Rightarrow> int" where
  "divRoundDown n s = cdiv n s"

definition divRoundUp :: "int \<Rightarrow> int \<Rightarrow> int" where
  "divRoundUp n s = cdiv n s + (if cmod n s > 0 then 1 else 0)"

section \<open>Failures\<close>

text \<open>
  Every way in which the C++ leaves its defined behaviour is a value: a failed
  \<open>ASSERT\<close> (which aborts the machine), an array access outside the array, and a
  request for a sector the device does not have.
\<close>

datatype failure = AssertFailed | OutOfBounds | DeviceFailure

section \<open>The free-sector bitmap\<close>

text \<open>
  Modelled from the spec: the bitmap classes (bitmap.cc, pbitmap.cc) are not among the
  sources. Section 6 of the specification lists the four operations consumed:
  \<open>FindAndSet\<close> reserves one free sector or reports that there is none (the C++ callers
  test the result against \<open>-1\<close>), \<open>Clear\<close> releases a sector, \<open>Test\<close> reads a bit and
  \<open>NumClear\<close> counts the free sectors. The bitmap is a list of bits, \<open>True\<close> for a
  sector in use; \<open>FindAndSet\<close> takes the free sector of lowest index. An index outside
  the bitmap is not a sector, and \<open>Clear\<close> and \<open>Test\<close> fail on it.
\<close>

type_synonym bitmap = "bool list"

fun firstClear :: "bitmap \<Rightarrow> nat option" where
  "firstClear [] = None"
| "firstClear (b # bs) = (if b then map_option Suc (firstClear bs) else Some 0)"

definition FindAndSet :: "bitmap \<Rightarrow> int \<times> bitmap" where
  "FindAndSet bits =
     (case firstClear bits of
        None \<Rightarrow> (- 1, bits)
      | Some k \<Rightarrow> (int k, bits[k := True]))"

definition NumClear :: "bitmap \<Rightarrow> int" where
  "NumClear bits = int (length (filter Not bits))"

definition validBit :: "bitmap \<Rightarrow> int \<Rightarrow> bool" where
  "validBit bits s = (0 \<le> s \<and> s < int (length bits))"

definition Test :: "bitmap \<Rightarrow> int \<Rightarrow> failure + bool" where
  "Test bits s = (if validBit bits s then Inr (bits ! nat s) else Inl AssertFailed)"

definition Clear :: "bitmap \<Rightarrow> int \<Rightarrow> failure + bitmap" where
  "Clear bits s = (if validBit bits s then Inr (bits[nat s := False]) else Inl AssertFailed)"

section \<open>File headers and the disk\<close>

record FileHeader =
  numBytes :: int
  numSectors :: int
  dataSectors :: "int list"

text \<open>The constructor \<open>FileHeader::FileHeader\<close>: every field is set to \<open>-1\<close>.\<close>

definition newFileHeader :: FileHeader where
  "newFileHeader = \<lparr>numBytes = - 1, numSectors = - 1, dataSectors = replicate NumDirect (- 1)\<rparr>"

record DirectoryEntry =
  inUse :: bool
  isDir :: bool
  sector :: int
  name :: string

text \<open>
  The state the file system works on. \<open>freeMap\<close> is the bitmap handed to the operations.
  \<open>headers\<close> is the disk read one sector at a time as a file header
  (\<open>FileHeader::FetchFrom\<close> copies the sector over the object); a sector the device does
  not have is \<open>None\<close>.

  Modelled from the spec: openfile.cc and directory.h are not among the sources, and with
  them the byte layout of a directory entry. By section 3 of the specification a
  subdirectory is an entry whose header sector leads to a file whose data is a serialized
  directory table; \<open>dirFiles s\<close> is the sequence of entries stored in the file whose
  header is in sector \<open>s\<close>.
\<close>

record fsys =
  freeMap :: bitmap
  headers :: "int \<rightharpoonup> FileHeader"
  dirFiles :: "int \<Rightarrow> DirectoryEntry list"

definition FetchFrom :: "fsys \<Rightarrow> int \<Rightarrow> failure + FileHeader" where
  "FetchFrom st s = (case headers st s of None \<Rightarrow> Inl DeviceFailure | Some h \<Rightarrow> Inr h)"

definition WriteBack :: "fsys \<Rightarrow> FileHeader \<Rightarrow> int \<Rightarrow> failure + fsys" where
  "WriteBack st h s =
     (case headers st s of
        None \<Rightarrow> Inl DeviceFailure
      | Some _ \<Rightarrow> Inr (st\<lparr>headers := (headers st)(s \<mapsto> h)\<rparr>))"

section \<open>FileHeader::Allocate\<close>

text \<open>
  The three interior branches of \<open>Allocate\<close> are the same loop over a different
  threshold; \<open>level\<close> names the branch and \<open>levelSize\<close> its threshold.
\<close>

datatype level = L1 | L2 | L3

fun levelSize :: "level \<Rightarrow> int" where
  "levelSize L1 = OneLevelSize"
| "levelSize L2 = TwoLevelSize"
| "levelSize L3 = ThreeLevelSize"

lemma levelSize_pos: "0 < levelSize lv"
  by (cases lv) (simp_all add: OneLevelSize_def TwoLevelSize_def ThreeLevelSize_def)

text \<open>
  The leaf loop \<open>for (j = 0; j < numSectors; j++)\<close>: each round stores the result of
  \<open>FindAndSet\<close> in \<open>dataSectors[j]\<close> and asserts that it is not negative.
\<close>

function AllocateLeaf :: "fsys \<Rightarrow> FileHeader \<Rightarrow> nat \<Rightarrow> failure + (bool \<times> FileHeader \<times> fsys)" where
  "AllocateLeaf st hdr j =
     (if int j < numSectors hdr then
        (case FindAndSet (freeMap st) of
           (s, fm) \<Rightarrow>
             if j \<ge> length (dataSectors hdr) then Inl OutOfBounds
             else if s < 0 then Inl AssertFailed
             else AllocateLeaf (st\<lparr>freeMap := fm\<rparr>)
                    (hdr\<lparr>dataSectors := (dataSectors hdr)[j := s]\<rparr>) (Suc j))
      else Inr (True, hdr, st))"
  by pat_completeness auto
termination
  by (relation "measure (\<lambda>(st, hdr, j). nat (numSectors hdr) - j)") auto

text \<open>
  \<open>Allocate st hdr fileSize\<close> is the call \<open>hdr->Allocate(freeMap, fileSize)\<close>; it
  returns the boolean of the C++ with the header and the state as the call leaves them.
  \<open>AllocateLoop lv st hdr fileSize i\<close> is the \<open>while (fileSize > 0)\<close> loop of the branch
  \<open>lv\<close>, entered with the local \<open>i\<close>. A \<open>return FALSE\<close> inside the loop leaves the
  function at once: nothing is given back to the bitmap.
\<close>

function Allocate :: "fsys \<Rightarrow> FileHeader \<Rightarrow> int \<Rightarrow> failure + (bool \<times> FileHeader \<times> fsys)"
  and AllocateLoop :: "level \<Rightarrow> fsys \<Rightarrow> FileHeader \<Rightarrow> int \<Rightarrow> nat \<Rightarrow> failure + (bool \<times> FileHeader \<times> fsys)"
  where
  "Allocate st hdr fileSize =
     (let hdr1 = hdr\<lparr>numBytes := fileSize, numSectors := divRoundUp fileSize SectorSize\<rparr> in
      if NumClear (freeMap st) < numSectors hdr1 then Inr (False, hdr1, st)
      else if fileSize > ThreeLevelSize then AllocateLoop L3 st hdr1 fileSize 0
      else if fileSize > TwoLevelSize then AllocateLoop L2 st hdr1 fileSize 0
      else if fileSize > OneLevelSize then AllocateLoop L1 st hdr1 fileSize 0
      else AllocateLeaf st hdr1 0)"
| "AllocateLoop lv st hdr fileSize i =
     (if fileSize > 0 then
        (case FindAndSet (freeMap st) of
           (s, fm) \<Rightarrow>
             if i \<ge> length (dataSectors hdr) then Inl OutOfBounds
             else if s < 0 then Inl AssertFailed
             else
               (let hdr' = hdr\<lparr>dataSectors := (dataSectors hdr)[i := s]\<rparr>;
                    childSize = (if fileSize > levelSize lv then levelSize lv else fileSize)
                in case Allocate (st\<lparr>freeMap := fm\<rparr>) newFileHeader childSize of
                     Inl e \<Rightarrow> Inl e
                   | Inr (success, child, st') \<Rightarrow>
                       if \<not> success then Inr (False, hdr', st')
                       else (case WriteBack st' child s of
                               Inl e \<Rightarrow> Inl e
                             | Inr st'' \<Rightarrow> AllocateLoop lv st'' hdr' (fileSize - childSize) (Suc i))))
      else Inr (True, hdr\<lparr>numSectors := int i\<rparr>, st))"
  by pat_completeness auto
termination
  by (relation "inv_image (less_than <*lex*> less_than <*lex*> less_than)
        (\<lambda>x. case x of
           Inl (st, hdr, fileSize) \<Rightarrow> (nat fileSize, 0::nat, 0::nat)
         | Inr (lv, st, hdr, fileSize, i) \<Rightarrow> (nat (levelSize lv), 1, nat fileSize))")
     (use levelSize_pos in \<open>auto simp: OneLevelSize_def TwoLevelSize_def ThreeLevelSize_def
        split: if_splits\<close>)

section \<open>Arithmetic of the rounding macros\<close>

declare Allocate.simps [simp del] AllocateLoop.simps [simp del] AllocateLeaf.simps [simp del]

lemma cmod_nonneg: "0 \<le> a \<Longrightarrow> 0 < b \<Longrightarrow> cmod a b = a mod b"
  by (simp add: cmod_def cdiv_def minus_div_mult_eq_mod)

lemma divRoundUp_alt:
  assumes "0 < s"
  shows "divRoundUp n s = - ((- n) div s)"
proof (cases "0 \<le> n")
  case True
  have m: "0 \<le> n mod s" using assms by simp
  have "divRoundUp n s = n div s + (if n mod s > 0 then 1 else 0)"
    using True assms by (simp add: divRoundUp_def cmod_nonneg) (simp add: cdiv_def)
  also have "\<dots> = - ((- n) div s)"
    using assms by (auto simp add: zdiv_zminus1_eq_if order_less_le)
  finally show ?thesis .
next
  case False
  have "cmod n s = - ((- n) mod s)"
    using False assms by (simp add: cmod_def cdiv_def algebra_simps flip: minus_div_mult_eq_mod) 
  moreover have "0 \<le> (- n) mod s" using assms by simp
  ultimately have "\<not> cmod n s > 0" by simp
  then show ?thesis
    using False assms by (simp add: divRoundUp_def) (simp add: cdiv_def)
qed

lemma divRoundUp_ceiling: "divRoundUp n SectorSize = \<lceil>real_of_int n / real_of_int SectorSize\<rceil>"
proof -
  have "divRoundUp n SectorSize = - ((- n) div SectorSize)"
    by (rule divRoundUp_alt) (simp add: SectorSize_def)
  also have "\<dots> = - \<lfloor>real_of_int (- n) / real_of_int SectorSize\<rfloor>"
    by (simp only: floor_divide_of_int_eq)
  also have "\<dots> = \<lceil>real_of_int n / real_of_int SectorSize\<rceil>"
    by (simp add: ceiling_def)
  finally show ?thesis .
qed

section \<open>Properties of the bitmap\<close>

lemma firstClear_None: "firstClear bits = None \<Longrightarrow> filter Not bits = []"
  by (induction bits) (auto split: if_splits)

lemma firstClear_Some:
  "firstClear bits = Some k \<Longrightarrow> k < length bits \<and> \<not> bits ! k"
  by (induction bits arbitrary: k) (auto split: if_splits)

lemma filter_Not_set:
  "k < length bits \<Longrightarrow> \<not> bits ! k \<Longrightarrow>
     Suc (length (filter Not (bits[k := True]))) = length (filter Not bits)"
proof (induction bits arbitrary: k)
  case Nil
  then show ?case by simp
next
  case (Cons b bs)
  then show ?case by (cases k) auto
qed

lemma filter_Not_clear:
  "k < length bits \<Longrightarrow> bits ! k \<Longrightarrow>
     length (filter Not (bits[k := False])) = Suc (length (filter Not bits))"
proof (induction bits arbitrary: k)
  case Nil
  then show ?case by simp
next
  case (Cons b bs)
  then show ?case by (cases k) auto
qed

lemma NumClear_nonneg: "0 \<le> NumClear bits"
  by (simp add: NumClear_def)

lemma FindAndSet_cases:
  assumes "FindAndSet bits = (s, fm)"
  shows "(s = - 1 \<and> fm = bits \<and> NumClear bits = 0) \<or>
         (0 \<le> s \<and> s < int (length bits) \<and> \<not> bits ! nat s \<and> fm = bits[nat s := True] \<and>
          NumClear fm = NumClear bits - 1)"
proof (cases "firstClear bits")
  case None
  then show ?thesis
    using assms firstClear_None [OF None] by (simp add: FindAndSet_def NumClear_def)
next
  case (Some k)
  from firstClear_Some [OF Some] have k: "k < length bits" "\<not> bits ! k" by simp_all
  have "int (length (filter Not (bits[k := True]))) = int (length (filter Not bits)) - 1"
    using filter_Not_set [OF k] by linarith
  then show ?thesis
    using assms Some k by (auto simp add: FindAndSet_def NumClear_def)
qed

lemma FindAndSet_neg:
  "FindAndSet bits = (s, fm) \<Longrightarrow> s < 0 \<Longrightarrow> NumClear bits = 0"
  using FindAndSet_cases by fastforce

lemma FindAndSet_ok:
  "FindAndSet bits = (s, fm) \<Longrightarrow> \<not> s < 0 \<Longrightarrow> NumClear fm = NumClear bits - 1"
  using FindAndSet_cases by fastforce

lemma AllocateLeaf_result:
  "AllocateLeaf st hdr j = Inr (ok, h', st') \<Longrightarrow>
     ok \<and> NumClear (freeMap st') = NumClear (freeMap st) - max 0 (numSectors hdr - int j) \<and>
     headers st' = headers st \<and> dirFiles st' = dirFiles st"
proof (induction st hdr j rule: AllocateLeaf.induct)
  case (1 st hdr j)
  show ?case
  proof (cases "int j < numSectors hdr")
    case False
    with "1.prems" show ?thesis by (simp add: AllocateLeaf.simps)
  next
    case True
    obtain s fm where fs: "FindAndSet (freeMap st) = (s, fm)" by fastforce
    from "1.prems" True fs have b: "\<not> j \<ge> length (dataSectors hdr)" "\<not> s < 0"
      by (auto simp add: AllocateLeaf.simps [of st hdr j] split: if_splits)
    with "1.prems" True fs
    have r: "AllocateLeaf (st\<lparr>freeMap := fm\<rparr>) (hdr\<lparr>dataSectors := (dataSectors hdr)[j := s]\<rparr>) (Suc j)
              = Inr (ok, h', st')"
      by (simp add: AllocateLeaf.simps [of st hdr j])
    from "1.IH" [OF True fs [symmetric] b r] FindAndSet_ok [OF fs b(2)] True
    show ?thesis by auto
  qed
qed

section \<open>What Allocate takes from the bitmap\<close>

lemma WriteBack_freeMap: "WriteBack st h s = Inr st' \<Longrightarrow> freeMap st' = freeMap st"
  by (auto simp add: WriteBack_def split: option.splits)

lemma Allocate_leak:
  "Allocate st hdr fileSize = Inr (ok, h', st') \<Longrightarrow>
     NumClear (freeMap st') \<le> NumClear (freeMap st) \<and>
     (\<not> ok \<longrightarrow> (NumClear (freeMap st) < divRoundUp fileSize SectorSize \<and> st' = st) \<or>
                (\<not> NumClear (freeMap st) < divRoundUp fileSize SectorSize \<and>
                 OneLevelSize < fileSize \<and> NumClear (freeMap st') < NumClear (freeMap st)))"
  "AllocateLoop lv st hdr fileSize i = Inr (ok, h', st') \<Longrightarrow>
     NumClear (freeMap st') \<le> NumClear (freeMap st) \<and>
     (\<not> ok \<longrightarrow> NumClear (freeMap st') < NumClear (freeMap st))"
proof (induction st hdr fileSize and lv st hdr fileSize i arbitrary: ok h' st' and ok h' st'
    rule: Allocate_AllocateLoop.induct)
  case (1 st hdr fileSize)
  let ?hdr1 = "hdr\<lparr>numBytes := fileSize, numSectors := divRoundUp fileSize SectorSize\<rparr>"
  show ?case
  proof (cases "NumClear (freeMap st) < divRoundUp fileSize SectorSize")
    case True
    with "1.prems" show ?thesis by (simp add: Allocate.simps)
  next
    case False
    note nf = False
    show ?thesis
    proof (cases "fileSize > OneLevelSize")
      case False
      with nf "1.prems" have "AllocateLeaf st ?hdr1 0 = Inr (ok, h', st')"
        by (simp add: Allocate.simps OneLevelSize_def TwoLevelSize_def ThreeLevelSize_def)
      from AllocateLeaf_result [OF this] show ?thesis by simp
    next
      case True
      then show ?thesis
        using nf "1.prems" "1.IH"
        by (auto simp add: Allocate.simps [of st hdr fileSize] Let_def split: if_splits)
    qed
  qed
next
  case (2 lv st hdr fileSize i)
  show ?case
  proof (cases "fileSize > 0")
    case False
    with "2.prems" show ?thesis by (simp add: AllocateLoop.simps)
  next
    case True
    obtain s fm where fs: "FindAndSet (freeMap st) = (s, fm)" by fastforce
    let ?hdr' = "hdr\<lparr>dataSectors := (dataSectors hdr)[i := s]\<rparr>"
    let ?c = "if fileSize > levelSize lv then levelSize lv else fileSize"
    from "2.prems" True fs have b: "\<not> i \<ge> length (dataSectors hdr)" "\<not> s < 0"
      by (auto simp add: AllocateLoop.simps [of lv st hdr fileSize i] split: if_splits)
    from FindAndSet_ok [OF fs b(2)] have n1: "NumClear fm = NumClear (freeMap st) - 1" .
    obtain ok1 child st1 where
      a: "Allocate (st\<lparr>freeMap := fm\<rparr>) newFileHeader ?c = Inr (ok1, child, st1)"
      using "2.prems" True fs b
      by (auto simp add: AllocateLoop.simps [of lv st hdr fileSize i] Let_def split: sum.splits)
    from "2.IH"(1) [OF True fs [symmetric] b refl refl a]
    have le1: "NumClear (freeMap st1) \<le> NumClear fm" by simp
    show ?thesis
    proof (cases ok1)
      case False
      with "2.prems" True fs b a have "st' = st1" "\<not> ok"
        by (auto simp add: AllocateLoop.simps [of lv st hdr fileSize i] Let_def)
      with le1 n1 show ?thesis by simp
    next
      case ok1: True
      obtain st2 where w: "WriteBack st1 child s = Inr st2"
        using "2.prems" True fs b a ok1
        by (auto simp add: AllocateLoop.simps [of lv st hdr fileSize i] Let_def split: sum.splits)
      have r: "AllocateLoop lv st2 ?hdr' (fileSize - ?c) (Suc i) = Inr (ok, h', st')"
        using "2.prems" True fs b a ok1 w
        by (simp add: AllocateLoop.simps [of lv st hdr fileSize i] Let_def)
      from "2.IH"(2) [OF True fs [symmetric] b refl refl a refl refl _ w r] ok1
      have "NumClear (freeMap st') \<le> NumClear (freeMap st2)" by simp
      with WriteBack_freeMap [OF w] le1 n1 show ?thesis by simp
    qed
  qed
qed

section \<open>Allocate gives nothing back\<close>

text \<open>
  \<open>sectorsTaken free fileSize\<close> follows \<open>Allocate\<close> on the number of free sectors alone:
  it returns the boolean of the call and the number of times \<open>FindAndSet\<close> handed out a
  sector before the call returned. \<open>sectorsTakenLoop\<close> does the same for the loop of an
  interior branch. The count only grows: nothing in \<open>Allocate\<close> clears a bit.
\<close>

function sectorsTaken :: "int \<Rightarrow> int \<Rightarrow> failure + (bool \<times> int)"
  and sectorsTakenLoop :: "level \<Rightarrow> int \<Rightarrow> int \<Rightarrow> failure + (bool \<times> int)"
  where
  "sectorsTaken free fileSize =
     (if free < divRoundUp fileSize SectorSize then Inr (False, 0)
      else if fileSize > ThreeLevelSize then sectorsTakenLoop L3 free fileSize
      else if fileSize > TwoLevelSize then sectorsTakenLoop L2 free fileSize
      else if fileSize > OneLevelSize then sectorsTakenLoop L1 free fileSize
      else Inr (True, max 0 (divRoundUp fileSize SectorSize)))"
| "sectorsTakenLoop lv free fileSize =
     (if fileSize > 0 then
        (if free \<le> 0 then Inl AssertFailed
         else
           (let childSize = (if fileSize > levelSize lv then levelSize lv else fileSize)
            in case sectorsTaken (free - 1) childSize of
                 Inl e \<Rightarrow> Inl e
               | Inr (success, k) \<Rightarrow>
                   if \<not> success then Inr (False, 1 + k)
                   else (case sectorsTakenLoop lv (free - 1 - k) (fileSize - childSize) of
                           Inl e \<Rightarrow> Inl e
                         | Inr (ok, k') \<Rightarrow> Inr (ok, 1 + k + k'))))
      else Inr (True, 0))"
  by pat_completeness auto
termination
  by (relation "inv_image (less_than <*lex*> less_than <*lex*> less_than)
        (\<lambda>x. case x of
           Inl (free, fileSize) \<Rightarrow> (nat fileSize, 0::nat, 0::nat)
         | Inr (lv, free, fileSize) \<Rightarrow> (nat (levelSize lv), 1, nat fileSize))")
     (use levelSize_pos in \<open>auto simp: OneLevelSize_def TwoLevelSize_def ThreeLevelSize_def
        split: if_splits\<close>)

declare sectorsTaken.simps [simp del] sectorsTakenLoop.simps [simp del]

text \<open>\<open>keepsUsed fm fm'\<close>: every sector in use in \<open>fm\<close> is in use in \<open>fm'\<close>.\<close>

definition keepsUsed :: "bitmap \<Rightarrow> bitmap \<Rightarrow> bool" where
  "keepsUsed fm fm' = (length fm' = length fm \<and> (\<forall>i<length fm. fm ! i \<longrightarrow> fm' ! i))"

lemma keepsUsed_refl: "keepsUsed fm fm"
  by (simp add: keepsUsed_def)

lemma keepsUsed_trans: "keepsUsed a b \<Longrightarrow> keepsUsed b c \<Longrightarrow> keepsUsed a c"
  by (simp add: keepsUsed_def)

lemma FindAndSet_keepsUsed:
  assumes "FindAndSet bits = (s, fm)"
  shows "keepsUsed bits fm"
proof (cases "firstClear bits")
  case None
  with assms show ?thesis by (simp add: FindAndSet_def keepsUsed_def)
next
  case (Some k)
  have "bits[k := True] ! i" if "i < length bits" "bits ! i" for i
    using that by (cases "i = k") simp_all
  with Some assms show ?thesis by (auto simp add: FindAndSet_def keepsUsed_def)
qed

lemma FindAndSet_free: "FindAndSet bits = (s, fm) \<Longrightarrow> \<not> s < 0 \<Longrightarrow> 0 < NumClear bits"
  using FindAndSet_ok [of bits s fm] NumClear_nonneg [of fm] by simp

lemma AllocateLeaf_keepsUsed:
  "AllocateLeaf st hdr j = Inr (ok, h', st') \<Longrightarrow> keepsUsed (freeMap st) (freeMap st')"
proof (induction st hdr j rule: AllocateLeaf.induct)
  case (1 st hdr j)
  show ?case
  proof (cases "int j < numSectors hdr")
    case False
    with "1.prems" show ?thesis by (simp add: AllocateLeaf.simps keepsUsed_refl)
  next
    case True
    obtain s fm where fs: "FindAndSet (freeMap st) = (s, fm)" by fastforce
    from "1.prems" True fs have b: "\<not> j \<ge> length (dataSectors hdr)" "\<not> s < 0"
      by (auto simp add: AllocateLeaf.simps [of st hdr j] split: if_splits)
    with "1.prems" True fs
    have r: "AllocateLeaf (st\<lparr>freeMap := fm\<rparr>) (hdr\<lparr>dataSectors := (dataSectors hdr)[j := s]\<rparr>) (Suc j)
              = Inr (ok, h', st')"
      by (simp add: AllocateLeaf.simps [of st hdr j])
    from "1.IH" [OF True fs [symmetric] b r] FindAndSet_keepsUsed [OF fs]
    show ?thesis by (auto intro: keepsUsed_trans)
  qed
qed

lemma Allocate_taken:
  "Allocate st hdr fileSize = Inr (ok, h', st') \<Longrightarrow>
     sectorsTaken (NumClear (freeMap st)) fileSize =
       Inr (ok, NumClear (freeMap st) - NumClear (freeMap st')) \<and>
     keepsUsed (freeMap st) (freeMap st')"
  "AllocateLoop lv st hdr fileSize i = Inr (ok, h', st') \<Longrightarrow>
     sectorsTakenLoop lv (NumClear (freeMap st)) fileSize =
       Inr (ok, NumClear (freeMap st) - NumClear (freeMap st')) \<and>
     keepsUsed (freeMap st) (freeMap st')"
proof (induction st hdr fileSize and lv st hdr fileSize i arbitrary: ok h' st' and ok h' st'
    rule: Allocate_AllocateLoop.induct)
  case (1 st hdr fileSize)
  let ?hdr1 = "hdr\<lparr>numBytes := fileSize, numSectors := divRoundUp fileSize SectorSize\<rparr>"
  let ?f = "NumClear (freeMap st)"
  show ?case
  proof (cases "?f < divRoundUp fileSize SectorSize")
    case True
    then have "sectorsTaken ?f fileSize = Inr (False, 0)"
      by (simp add: sectorsTaken.simps [of ?f fileSize])
    moreover from True "1.prems" have "st' = st" "\<not> ok"
      by (simp_all add: Allocate.simps)
    ultimately show ?thesis by (simp add: keepsUsed_refl)
  next
    case False
    note nf = False
    show ?thesis
    proof (cases "fileSize > OneLevelSize")
      case False
      with nf "1.prems" have l: "AllocateLeaf st ?hdr1 0 = Inr (ok, h', st')"
        by (simp add: Allocate.simps OneLevelSize_def TwoLevelSize_def ThreeLevelSize_def)
      have "sectorsTaken ?f fileSize = Inr (True, max 0 (divRoundUp fileSize SectorSize))"
        using nf False
        by (simp add: sectorsTaken.simps [of ?f fileSize] OneLevelSize_def TwoLevelSize_def
            ThreeLevelSize_def)
      with AllocateLeaf_result [OF l] AllocateLeaf_keepsUsed [OF l]
      show ?thesis by simp
    next
      case True
      have u: "sectorsTaken ?f fileSize =
          (if fileSize > ThreeLevelSize then sectorsTakenLoop L3 ?f fileSize
           else if fileSize > TwoLevelSize then sectorsTakenLoop L2 ?f fileSize
           else sectorsTakenLoop L1 ?f fileSize)"
        using nf True by (simp add: sectorsTaken.simps [of ?f fileSize])
      show ?thesis
        using True nf "1.prems" "1.IH"
        by (auto simp add: Allocate.simps [of st hdr fileSize] u Let_def split: if_splits)
    qed
  qed
next
  case (2 lv st hdr fileSize i)
  let ?f = "NumClear (freeMap st)"
  show ?case
  proof (cases "fileSize > 0")
    case False
    then have "sectorsTakenLoop lv ?f fileSize = Inr (True, 0)"
      by (simp add: sectorsTakenLoop.simps [of lv ?f fileSize])
    moreover from False "2.prems" have "st' = st" ok
      by (simp_all add: AllocateLoop.simps)
    ultimately show ?thesis by (simp add: keepsUsed_refl)
  next
    case True
    obtain s fm where fs: "FindAndSet (freeMap st) = (s, fm)" by fastforce
    let ?hdr' = "hdr\<lparr>dataSectors := (dataSectors hdr)[i := s]\<rparr>"
    let ?c = "if fileSize > levelSize lv then levelSize lv else fileSize"
    from "2.prems" True fs have b: "\<not> i \<ge> length (dataSectors hdr)" "\<not> s < 0"
      by (auto simp add: AllocateLoop.simps [of lv st hdr fileSize i] split: if_splits)
    from FindAndSet_ok [OF fs b(2)] have n1: "NumClear fm = ?f - 1" .
    from FindAndSet_free [OF fs b(2)] have fr: "\<not> ?f \<le> 0" by simp
    note k0 = FindAndSet_keepsUsed [OF fs]
    obtain ok1 child st1 where
      a: "Allocate (st\<lparr>freeMap := fm\<rparr>) newFileHeader ?c = Inr (ok1, child, st1)"
      using "2.prems" True fs b
      by (auto simp add: AllocateLoop.simps [of lv st hdr fileSize i] Let_def split: sum.splits)
    from "2.IH"(1) [OF True fs [symmetric] b refl refl a]
    have t1: "sectorsTaken (?f - 1) ?c = Inr (ok1, ?f - 1 - NumClear (freeMap st1))"
      and k1: "keepsUsed fm (freeMap st1)" by (simp_all add: n1)
    show ?thesis
    proof (cases ok1)
      case False
      with "2.prems" True fs b a have e: "st' = st1" "\<not> ok"
        by (auto simp add: AllocateLoop.simps [of lv st hdr fileSize i] Let_def)
      have "sectorsTakenLoop lv ?f fileSize = Inr (False, 1 + (?f - 1 - NumClear (freeMap st1)))"
        using True fr t1 False by (simp add: sectorsTakenLoop.simps [of lv ?f fileSize] Let_def)
      with e keepsUsed_trans [OF k0 k1] show ?thesis by simp
    next
      case ok1: True
      obtain st2 where w: "WriteBack st1 child s = Inr st2"
        using "2.prems" True fs b a ok1
        by (auto simp add: AllocateLoop.simps [of lv st hdr fileSize i] Let_def split: sum.splits)
      have r: "AllocateLoop lv st2 ?hdr' (fileSize - ?c) (Suc i) = Inr (ok, h', st')"
        using "2.prems" True fs b a ok1 w
        by (simp add: AllocateLoop.simps [of lv st hdr fileSize i] Let_def)
      note f2 = WriteBack_freeMap [OF w]
      from "2.IH"(2) [OF True fs [symmetric] b refl refl a refl refl _ w r] ok1
      have t2: "sectorsTakenLoop lv (NumClear (freeMap st1)) (fileSize - ?c) =
          Inr (ok, NumClear (freeMap st1) - NumClear (freeMap st'))"
        and k2: "keepsUsed (freeMap st1) (freeMap st')" by (simp_all add: f2)
      have "?f - 1 - (?f - 1 - NumClear (freeMap st1)) = NumClear (freeMap st1)" by simp
      with t2 have t2': "sectorsTakenLoop lv (?f - 1 - (?f - 1 - NumClear (freeMap st1))) (fileSize - ?c) =
          Inr (ok, NumClear (freeMap st1) - NumClear (freeMap st'))" by simp
      have "sectorsTakenLoop lv ?f fileSize =
          Inr (ok, 1 + (?f - 1 - NumClear (freeMap st1)) +
                   (NumClear (freeMap st1) - NumClear (freeMap st')))"
        using True fr t1 ok1 t2'
        by (subst sectorsTakenLoop.simps) (simp add: Let_def del: diff_diff_eq2 diff_diff_eq)
      with keepsUsed_trans [OF keepsUsed_trans [OF k0 k1] k2] show ?thesis by simp
    qed
  qed
qed

lemma taken_4000_on_32: "sectorsTaken 32 4000 = Inr (False, 32)"
  by code_simp

section \<open>Concrete devices\<close>

text \<open>
  A device of \<open>n\<close> sectors on which nothing is allocated, and the observation of an
  \<open>Allocate\<close> call used in the concrete runs below: the boolean it returned and the
  number of free sectors it left.
\<close>

definition emptyDisk :: "nat \<Rightarrow> fsys" where
  "emptyDisk n =
     \<lparr>freeMap = replicate n False,
      headers = (\<lambda>s. if 0 \<le> s \<and> s < int n then Some newFileHeader else None),
      dirFiles = (\<lambda>s. [])\<rparr>"

definition freeAfter :: "failure + (bool \<times> FileHeader \<times> fsys) \<Rightarrow> failure + (bool \<times> int)" where
  "freeAfter r = map_sum id (\<lambda>(ok, h, st). (ok, NumClear (freeMap st))) r"

lemma NumClear_emptyDisk: "NumClear (freeMap (emptyDisk n)) = int n"
  by (simp add: emptyDisk_def NumClear_def)

lemma freeAfter_Inr:
  "freeAfter r = Inr (ok, n) \<Longrightarrow> \<exists>h st. r = Inr (ok, h, st) \<and> NumClear (freeMap st) = n"
  by (cases r) (auto simp add: freeAfter_def)

lemma run_4000_on_32: "freeAfter (Allocate (emptyDisk 32) newFileHeader 4000) = Inr (False, 0)"
  by code_simp

section \<open>The claims about Allocate\<close>

text \<open>
  C10. For a size that is not negative, \<open>Allocate\<close> computes the number of sectors
  needed as the ceiling of size / SectorSize and, when the bitmap has fewer free sectors
  than that, returns failure at once: the state it returns is the state it was given, so
  no sector was reserved.
\<close>

theorem Allocate_fails_up_front:
  assumes "0 \<le> fileSize"
    and "NumClear (freeMap st) < \<lceil>real_of_int fileSize / real_of_int SectorSize\<rceil>"
  shows "Allocate st hdr fileSize =
           Inr (False,
                hdr\<lparr>numBytes := fileSize,
                    numSectors := \<lceil>real_of_int fileSize / real_of_int SectorSize\<rceil>\<rparr>,
                st)"
  using assms by (simp add: Allocate.simps divRoundUp_ceiling)

theorem Allocate_fails_up_front_witness:
  "NumClear (freeMap (emptyDisk 5)) < \<lceil>real_of_int 4000 / real_of_int SectorSize\<rceil> \<and>
   Allocate (emptyDisk 5) newFileHeader 4000 =
     Inr (False, newFileHeader\<lparr>numBytes := 4000, numSectors := 32\<rparr>, emptyDisk 5)"
proof -
  have a: "(0::int) \<le> 4000" by simp
  have b: "NumClear (freeMap (emptyDisk 5)) < \<lceil>real_of_int 4000 / real_of_int SectorSize\<rceil>"
    by (simp add: NumClear_emptyDisk SectorSize_def)
  have c: "\<lceil>real_of_int 4000 / real_of_int SectorSize\<rceil> = 32"
    by (simp add: SectorSize_def)
  from Allocate_fails_up_front [OF a b, of newFileHeader] b c show ?thesis by simp
qed

text \<open>
  C1 (as the code has it). \<open>Allocate\<close> has no rollback. When it returns failure, either
  the up-front check failed, and then the state is untouched, or the check passed, the
  header is an interior one (size above \<open>OneLevelSize\<close>) and a nested allocation
  failed: then the bitmap has strictly fewer free sectors than before the call. In both
  cases nothing is given back: the number of free sectors has gone down by exactly the
  number of sectors \<open>FindAndSet\<close> handed out before the failure, as \<open>sectorsTaken\<close>
  counts them, and every sector in use before the call is still in use.
\<close>

theorem Allocate_failure_keeps_sectors:
  assumes "Allocate st hdr fileSize = Inr (False, h', st')"
  shows "((NumClear (freeMap st) < divRoundUp fileSize SectorSize \<and> st' = st) \<or>
          (\<not> NumClear (freeMap st) < divRoundUp fileSize SectorSize \<and>
           OneLevelSize < fileSize \<and> NumClear (freeMap st') < NumClear (freeMap st))) \<and>
         sectorsTaken (NumClear (freeMap st)) fileSize =
           Inr (False, NumClear (freeMap st) - NumClear (freeMap st')) \<and>
         keepsUsed (freeMap st) (freeMap st')"
  using Allocate_leak(1) [OF assms] Allocate_taken(1) [OF assms] by simp

theorem Allocate_failure_keeps_sectors_witness:
  "\<exists>h' st'. Allocate (emptyDisk 32) newFileHeader 4000 = Inr (False, h', st') \<and>
     NumClear (freeMap st') < NumClear (freeMap (emptyDisk 32)) \<and>
     sectorsTaken 32 4000 = Inr (False, 32) \<and>
     NumClear (freeMap st') = NumClear (freeMap (emptyDisk 32)) - 32 \<and>
     keepsUsed (freeMap (emptyDisk 32)) (freeMap st')"
proof -
  from freeAfter_Inr [OF run_4000_on_32] obtain h' st' where
    r: "Allocate (emptyDisk 32) newFileHeader 4000 = Inr (False, h', st')" by blast
  have n: "\<not> NumClear (freeMap (emptyDisk 32)) < divRoundUp 4000 SectorSize"
    by (simp add: NumClear_emptyDisk divRoundUp_alt SectorSize_def)
  from Allocate_failure_keeps_sectors [OF r] n
  have a: "NumClear (freeMap st') < NumClear (freeMap (emptyDisk 32))"
    and b: "sectorsTaken (NumClear (freeMap (emptyDisk 32))) 4000 =
           Inr (False, NumClear (freeMap (emptyDisk 32)) - NumClear (freeMap st'))"
    and c: "keepsUsed (freeMap (emptyDisk 32)) (freeMap st')"
    by simp_all
  from b have "NumClear (freeMap st') = NumClear (freeMap (emptyDisk 32)) - 32"
    by (simp add: NumClear_emptyDisk taken_4000_on_32)
  with r a c show ?thesis by (auto simp add: taken_4000_on_32)
qed

text \<open>
  The claim as the specification states it fails: on a device with 32 free sectors a
  request for 4000 bytes passes the check (32 sectors are needed), the second child
  header takes the last free sector, the allocation of its two data sectors fails, and
  the call returns failure with no free sector left.
\<close>

theorem Allocate_not_atomic_counterexample:
  "NumClear (freeMap (emptyDisk 32)) = 32 \<and>
   freeAfter (Allocate (emptyDisk 32) newFileHeader 4000) = Inr (False, 0)"
  using run_4000_on_32 by (simp add: NumClear_emptyDisk)

section \<open>The sectors an interior allocation takes\<close>

text \<open>
  The header sectors of the index tree of a file of a given size, counted along the
  recursion of \<open>Allocate\<close>: each round of an interior loop takes one sector for the child
  header, and the child has header sectors of its own when it is interior too.
\<close>

function headerSectors :: "int \<Rightarrow> int"
  and headerSectorsLoop :: "level \<Rightarrow> int \<Rightarrow> int"
  where
  "headerSectors fileSize =
     (if fileSize > ThreeLevelSize then headerSectorsLoop L3 fileSize
      else if fileSize > TwoLevelSize then headerSectorsLoop L2 fileSize
      else if fileSize > OneLevelSize then headerSectorsLoop L1 fileSize
      else 0)"
| "headerSectorsLoop lv fileSize =
     (if fileSize > 0 then
        (let childSize = (if fileSize > levelSize lv then levelSize lv else fileSize)
         in 1 + headerSectors childSize + headerSectorsLoop lv (fileSize - childSize))
      else 0)"
  by pat_completeness auto
termination
  by (relation "inv_image (less_than <*lex*> less_than <*lex*> less_than)
        (\<lambda>x. case x of
           Inl fileSize \<Rightarrow> (nat fileSize, 0::nat, 0::nat)
         | Inr (lv, fileSize) \<Rightarrow> (nat (levelSize lv), 1, nat fileSize))")
     (use levelSize_pos in \<open>auto simp: OneLevelSize_def TwoLevelSize_def ThreeLevelSize_def
        split: if_splits\<close>)

declare headerSectors.simps [simp del] headerSectorsLoop.simps [simp del]

lemma headerSectors_nonneg:
  "0 \<le> headerSectors fileSize"
  "0 \<le> headerSectorsLoop lv fileSize"
proof (induction fileSize and lv fileSize rule: headerSectors_headerSectorsLoop.induct)
  case (1 fileSize)
  then show ?case by (simp add: headerSectors.simps [of fileSize])
next
  case (2 lv fileSize)
  then show ?case by (simp add: headerSectorsLoop.simps [of lv fileSize] Let_def)
qed

lemma headerSectorsLoop_pos: "0 < fileSize \<Longrightarrow> 0 < headerSectorsLoop lv fileSize"
  using headerSectors_nonneg(1) [of "if fileSize > levelSize lv then levelSize lv else fileSize"]
    headerSectors_nonneg(2) [of lv "fileSize - (if fileSize > levelSize lv then levelSize lv else fileSize)"]
  by (simp add: headerSectorsLoop.simps [of lv fileSize] Let_def)

lemma headerSectors_pos: "OneLevelSize < fileSize \<Longrightarrow> 0 < headerSectors fileSize"
  by (simp add: headerSectors.simps [of fileSize] headerSectorsLoop_pos OneLevelSize_def)

lemma divRoundUp_zero: "divRoundUp 0 SectorSize = 0"
  by (simp add: divRoundUp_def cdiv_def cmod_def)

lemma divRoundUp_nonneg: "0 \<le> n \<Longrightarrow> 0 \<le> divRoundUp n SectorSize"
  by (simp add: divRoundUp_def cdiv_def SectorSize_def pos_imp_zdiv_nonneg_iff)

lemma levelSize_sectors: "\<exists>m. levelSize lv = m * SectorSize"
  by (cases lv) (simp_all add: OneLevelSize_def TwoLevelSize_def ThreeLevelSize_def SectorSize_def)

lemma divRoundUp_chunk:
  "divRoundUp (levelSize lv) SectorSize + divRoundUp (x - levelSize lv) SectorSize =
   divRoundUp x SectorSize"
proof -
  obtain m where m: "levelSize lv = m * SectorSize" using levelSize_sectors by blast
  have s: "(0::int) < 128" by simp
  have "- (x - m * 128) = m * 128 + (- x)" by simp
  then have "(- (x - m * 128)) div 128 = (m * 128 + (- x)) div 128"
    by (rule arg_cong)
  also have "\<dots> = m + (- x) div 128"
    by (rule div_mult_self3) simp
  finally have a: "(- (x - m * 128)) div 128 = m + (- x) div 128" .
  have b: "(- (m * 128)) div 128 = - m"
    using div_mult_self3 [of 128 "- m" 0] by simp
  have "- ((- (m * 128)) div 128) + - ((- (x - m * 128)) div 128) = - ((- x) div (128::int))"
    by (simp only: a b)
  then show ?thesis
    using divRoundUp_alt [OF s] by (simp add: m SectorSize_def)
qed

lemma Allocate_cost:
  "0 \<le> fileSize \<Longrightarrow> Allocate st hdr fileSize = Inr (True, h', st') \<Longrightarrow>
     NumClear (freeMap st) - NumClear (freeMap st') =
       divRoundUp fileSize SectorSize + headerSectors fileSize"
  "0 \<le> fileSize \<Longrightarrow> AllocateLoop lv st hdr fileSize i = Inr (True, h', st') \<Longrightarrow>
     NumClear (freeMap st) - NumClear (freeMap st') =
       divRoundUp fileSize SectorSize + headerSectorsLoop lv fileSize"
proof (induction st hdr fileSize and lv st hdr fileSize i arbitrary: h' st' and h' st'
    rule: Allocate_AllocateLoop.induct)
  case (1 st hdr fileSize)
  let ?hdr1 = "hdr\<lparr>numBytes := fileSize, numSectors := divRoundUp fileSize SectorSize\<rparr>"
  from "1.prems" have nf: "\<not> NumClear (freeMap st) < divRoundUp fileSize SectorSize"
    by (auto simp add: Allocate.simps [of st hdr fileSize])
  show ?case
  proof (cases "fileSize > OneLevelSize")
    case False
    with nf "1.prems" have "AllocateLeaf st ?hdr1 0 = Inr (True, h', st')"
      by (simp add: Allocate.simps OneLevelSize_def TwoLevelSize_def ThreeLevelSize_def)
    from AllocateLeaf_result [OF this] False divRoundUp_nonneg [OF "1.prems"(1)]
    show ?thesis
      by (simp add: headerSectors.simps [of fileSize] OneLevelSize_def TwoLevelSize_def
          ThreeLevelSize_def)
  next
    case True
    then show ?thesis
      using nf "1.prems" "1.IH"
      by (auto simp add: Allocate.simps [of st hdr fileSize] headerSectors.simps [of fileSize]
          Let_def split: if_splits)
  qed
next
  case (2 lv st hdr fileSize i)
  show ?case
  proof (cases "fileSize > 0")
    case False
    with "2.prems" have "fileSize = 0" "st' = st" by (simp_all add: AllocateLoop.simps)
    then show ?thesis by (simp add: divRoundUp_zero headerSectorsLoop.simps [of lv 0])
  next
    case True
    obtain s fm where fs: "FindAndSet (freeMap st) = (s, fm)" by fastforce
    let ?hdr' = "hdr\<lparr>dataSectors := (dataSectors hdr)[i := s]\<rparr>"
    let ?c = "if fileSize > levelSize lv then levelSize lv else fileSize"
    from "2.prems" True fs have b: "\<not> i \<ge> length (dataSectors hdr)" "\<not> s < 0"
      by (auto simp add: AllocateLoop.simps [of lv st hdr fileSize i] split: if_splits)
    from FindAndSet_ok [OF fs b(2)] have n1: "NumClear fm = NumClear (freeMap st) - 1" .
    obtain ok1 child st1 where
      a: "Allocate (st\<lparr>freeMap := fm\<rparr>) newFileHeader ?c = Inr (ok1, child, st1)"
      using "2.prems" True fs b
      by (auto simp add: AllocateLoop.simps [of lv st hdr fileSize i] Let_def split: sum.splits)
    have ok1: ok1
      using "2.prems" True fs b a
      by (auto simp add: AllocateLoop.simps [of lv st hdr fileSize i] Let_def split: if_splits)
    have c0: "0 \<le> ?c" using True levelSize_pos [of lv] by simp
    have c1: "0 \<le> fileSize - ?c" using True by simp
    from "2.IH"(1) [OF True fs [symmetric] b refl refl c0] a ok1
    have e1: "NumClear fm - NumClear (freeMap st1) = divRoundUp ?c SectorSize + headerSectors ?c"
      by simp
    obtain st2 where w: "WriteBack st1 child s = Inr st2"
      using "2.prems" True fs b a ok1
      by (auto simp add: AllocateLoop.simps [of lv st hdr fileSize i] Let_def split: sum.splits)
    have r: "AllocateLoop lv st2 ?hdr' (fileSize - ?c) (Suc i) = Inr (True, h', st')"
      using "2.prems" True fs b a ok1 w
      by (simp add: AllocateLoop.simps [of lv st hdr fileSize i] Let_def)
    from "2.IH"(2) [OF True fs [symmetric] b refl refl a [unfolded ok1] refl refl _ w c1 r] ok1
    have e2: "NumClear (freeMap st2) - NumClear (freeMap st') =
        divRoundUp (fileSize - ?c) SectorSize + headerSectorsLoop lv (fileSize - ?c)" by simp
    have e3: "divRoundUp ?c SectorSize + divRoundUp (fileSize - ?c) SectorSize =
        divRoundUp fileSize SectorSize"
      using divRoundUp_chunk [of lv fileSize] by (simp add: divRoundUp_zero)
    have e4: "headerSectorsLoop lv fileSize =
        1 + headerSectors ?c + headerSectorsLoop lv (fileSize - ?c)"
      using True by (simp add: headerSectorsLoop.simps [of lv fileSize] Let_def)
    from e1 e2 e3 e4 n1 WriteBack_freeMap [OF w] show ?thesis by (simp split: if_splits)
  qed
qed

lemma freeAfter_Inl: "freeAfter r = Inl e \<Longrightarrow> r = Inl e"
  by (cases r) (auto simp add: freeAfter_def)

lemma run_3841_on_31:
  "freeAfter (Allocate (emptyDisk 31) newFileHeader 3841) = Inl AssertFailed"
  by code_simp

lemma run_4000_on_40: "freeAfter (Allocate (emptyDisk 40) newFileHeader 4000) = Inr (True, 6)"
  by code_simp

text \<open>
  C5. An interior allocation (size above \<open>OneLevelSize\<close>) that succeeds takes from the
  bitmap the ceiling of size / SectorSize data sectors and, on top of them, one sector for
  each child header of every interior level, which is at least one sector; the up-front
  check asks for the data sectors only. So the check can pass and the bitmap run out
  afterwards, and then the call ends in the failed assertion \<open>ASSERT(dataSectors[i] >= 0)\<close>.
\<close>

theorem Allocate_interior_cost:
  "(OneLevelSize < fileSize \<and> Allocate st hdr fileSize = Inr (True, h', st') \<longrightarrow>
      NumClear (freeMap st) - NumClear (freeMap st') =
        \<lceil>real_of_int fileSize / real_of_int SectorSize\<rceil> + headerSectors fileSize \<and>
      0 < headerSectors fileSize) \<and>
   (\<exists>st fileSize. OneLevelSize < fileSize \<and>
      \<not> NumClear (freeMap st) < \<lceil>real_of_int fileSize / real_of_int SectorSize\<rceil> \<and>
      Allocate st newFileHeader fileSize = Inl AssertFailed)"
proof (intro conjI impI)
  assume a: "OneLevelSize < fileSize \<and> Allocate st hdr fileSize = Inr (True, h', st')"
  then have "0 \<le> fileSize" by (simp add: OneLevelSize_def)
  from Allocate_cost(1) [OF this conjunct2 [OF a]]
  show "NumClear (freeMap st) - NumClear (freeMap st') =
        \<lceil>real_of_int fileSize / real_of_int SectorSize\<rceil> + headerSectors fileSize"
    by (simp add: divRoundUp_ceiling)
  from a show "0 < headerSectors fileSize" by (simp add: headerSectors_pos)
next
  have "OneLevelSize < 3841" by (simp add: OneLevelSize_def)
  moreover have "\<not> NumClear (freeMap (emptyDisk 31)) < \<lceil>real_of_int 3841 / real_of_int SectorSize\<rceil>"
    by (simp add: NumClear_emptyDisk SectorSize_def)
  moreover note freeAfter_Inl [OF run_3841_on_31]
  ultimately show "\<exists>st fileSize. OneLevelSize < fileSize \<and>
      \<not> NumClear (freeMap st) < \<lceil>real_of_int fileSize / real_of_int SectorSize\<rceil> \<and>
      Allocate st newFileHeader fileSize = Inl AssertFailed" by blast
qed

theorem Allocate_interior_cost_witness:
  "\<exists>h' st'. Allocate (emptyDisk 40) newFileHeader 4000 = Inr (True, h', st') \<and>
     NumClear (freeMap (emptyDisk 40)) - NumClear (freeMap st') = 32 + headerSectors 4000 \<and>
     0 < headerSectors 4000"
proof -
  from freeAfter_Inr [OF run_4000_on_40] obtain h' st' where
    r: "Allocate (emptyDisk 40) newFileHeader 4000 = Inr (True, h', st')" by blast
  have "OneLevelSize < 4000" by (simp add: OneLevelSize_def)
  moreover have "\<lceil>real_of_int 4000 / real_of_int SectorSize\<rceil> = 32" by (simp add: SectorSize_def)
  ultimately have "NumClear (freeMap (emptyDisk 40)) - NumClear (freeMap st') = 32 + headerSectors 4000 \<and>
     0 < headerSectors 4000"
    using Allocate_interior_cost [of 4000 "emptyDisk 40" newFileHeader h' st'] r by simp
  with r show ?thesis by blast
qed

section \<open>Directories\<close>

text \<open>
  A directory is its table; \<open>tableSize\<close> is the length of the list. The constructor
  clears the whole table with \<open>memset\<close> before it resets the two flags.

  directory.h is not among the sources. The constant \<open>FileNameMaxLen\<close> it defines is the
  first argument \<open>n\<close> of the operations below. A name is the sequence of characters of
  the C string before its terminator, so \<open>strncmp(a, b, n) == 0\<close> holds exactly when the
  two names have the same first \<open>n\<close> characters, and \<open>strncpy(dst, nm, n)\<close> leaves the
  first \<open>n\<close> characters of \<open>nm\<close> in the entry.
\<close>

definition emptyEntry :: DirectoryEntry where
  "emptyEntry = \<lparr>inUse = False, isDir = False, sector = 0, name = []\<rparr>"

definition Directory :: "nat \<Rightarrow> DirectoryEntry list" where
  "Directory sz = replicate sz emptyEntry"

definition strncmpEq :: "string \<Rightarrow> string \<Rightarrow> nat \<Rightarrow> bool" where
  "strncmpEq a b n = (take n a = take n b)"

definition strncpy :: "string \<Rightarrow> nat \<Rightarrow> string" where
  "strncpy nm n = take n nm"

function FindIndexFrom :: "nat \<Rightarrow> DirectoryEntry list \<Rightarrow> string \<Rightarrow> nat \<Rightarrow> int" where
  "FindIndexFrom n table nm i =
     (if i < length table then
        (if inUse (table ! i) \<and> strncmpEq (name (table ! i)) nm n then int i
         else FindIndexFrom n table nm (Suc i))
      else - 1)"
  by pat_completeness auto
termination
  by (relation "measure (\<lambda>(n, table, nm, i). length table - i)") auto

definition FindIndex :: "nat \<Rightarrow> DirectoryEntry list \<Rightarrow> string \<Rightarrow> int" where
  "FindIndex n table nm = FindIndexFrom n table nm 0"

definition Find :: "nat \<Rightarrow> DirectoryEntry list \<Rightarrow> string \<Rightarrow> int" where
  "Find n table nm =
     (let i = FindIndex n table nm in if i \<noteq> - 1 then sector (table ! nat i) else - 1)"

text \<open>\<open>FindisDir\<close> returns an \<open>int\<close>: the flag as 0 or 1, or \<open>-1\<close> for a name not found.\<close>

definition FindisDir :: "nat \<Rightarrow> DirectoryEntry list \<Rightarrow> string \<Rightarrow> int" where
  "FindisDir n table nm =
     (let i = FindIndex n table nm in
      if i \<noteq> - 1 then (if isDir (table ! nat i) then 1 else 0) else - 1)"

text \<open>
  \<open>IsDir\<close> indexes the table with the result of \<open>FindIndex\<close> without testing it: for a
  name not found it reads \<open>table[-1]\<close>.
\<close>

definition IsDir :: "nat \<Rightarrow> DirectoryEntry list \<Rightarrow> string \<Rightarrow> failure + bool" where
  "IsDir n table nm =
     (let i = FindIndex n table nm in
      if 0 \<le> i \<and> i < int (length table) then Inr (isDir (table ! nat i)) else Inl OutOfBounds)"

function AddFrom :: "nat \<Rightarrow> DirectoryEntry list \<Rightarrow> string \<Rightarrow> int \<Rightarrow> bool \<Rightarrow> nat \<Rightarrow> bool \<times> DirectoryEntry list" where
  "AddFrom n table nm newSector AddDir i =
     (if i < length table then
        (if \<not> inUse (table ! i) then
           (True, table[i := (table ! i)\<lparr>inUse := True, isDir := (if AddDir then True else False),
                                          name := strncpy nm n, sector := newSector\<rparr>])
         else AddFrom n table nm newSector AddDir (Suc i))
      else (False, table))"
  by pat_completeness auto
termination
  by (relation "measure (\<lambda>(n, table, nm, newSector, AddDir, i). length table - i)") auto

definition Add :: "nat \<Rightarrow> DirectoryEntry list \<Rightarrow> string \<Rightarrow> int \<Rightarrow> bool \<Rightarrow> bool \<times> DirectoryEntry list" where
  "Add n table nm newSector AddDir =
     (if FindIndex n table nm \<noteq> - 1 then (False, table)
      else AddFrom n table nm newSector AddDir 0)"

definition Remove :: "nat \<Rightarrow> DirectoryEntry list \<Rightarrow> string \<Rightarrow> bool \<times> DirectoryEntry list" where
  "Remove n table nm =
     (let i = FindIndex n table nm in
      if i = - 1 then (False, table)
      else (True, table[nat i := (table ! nat i)\<lparr>inUse := False\<rparr>]))"

declare FindIndexFrom.simps [simp del] AddFrom.simps [simp del]

text \<open>The test of the scan in \<open>FindIndex\<close>, for the slot \<open>j\<close>.\<close>

definition slotMatches :: "nat \<Rightarrow> DirectoryEntry list \<Rightarrow> string \<Rightarrow> nat \<Rightarrow> bool" where
  "slotMatches n table nm j = (inUse (table ! j) \<and> strncmpEq (name (table ! j)) nm n)"

lemma FindIndexFrom_unfold:
  "FindIndexFrom n table nm i =
     (if i < length table then
        (if slotMatches n table nm i then int i else FindIndexFrom n table nm (Suc i))
      else - 1)"
  by (simp add: FindIndexFrom.simps [of n table nm i] slotMatches_def)

lemma FindIndexFrom_miss:
  "FindIndexFrom n table nm i = - 1 \<longleftrightarrow>
     (\<forall>j. i \<le> j \<and> j < length table \<longrightarrow> \<not> slotMatches n table nm j)"
proof (induction "length table - i" arbitrary: i)
  case 0
  then show ?case by (subst FindIndexFrom_unfold) auto
next
  case (Suc d)
  then have lt: "i < length table" and d: "d = length table - Suc i" by simp_all
  show ?case
  proof (cases "slotMatches n table nm i")
    case True
    with lt show ?thesis by (subst FindIndexFrom_unfold) auto
  next
    case False
    have "FindIndexFrom n table nm i = FindIndexFrom n table nm (Suc i)"
      using lt False by (subst FindIndexFrom_unfold) simp
    also have "\<dots> = - 1 \<longleftrightarrow>
        (\<forall>j. Suc i \<le> j \<and> j < length table \<longrightarrow> \<not> slotMatches n table nm j)"
      by (rule Suc.hyps(1) [OF d])
    also have "\<dots> \<longleftrightarrow> (\<forall>j. i \<le> j \<and> j < length table \<longrightarrow> \<not> slotMatches n table nm j)"
      using False by (metis Suc_leD Suc_leI le_neq_implies_less)
    finally show ?thesis .
  qed
qed

lemma FindIndexFrom_hit:
  "FindIndexFrom n table nm i = int k \<longleftrightarrow>
     (i \<le> k \<and> k < length table \<and> slotMatches n table nm k \<and>
      (\<forall>j. i \<le> j \<and> j < k \<longrightarrow> \<not> slotMatches n table nm j))"
proof (induction "length table - i" arbitrary: i)
  case 0
  then show ?case by (subst FindIndexFrom_unfold) auto
next
  case (Suc d)
  then have lt: "i < length table" and d: "d = length table - Suc i" by simp_all
  show ?case
  proof (cases "slotMatches n table nm i")
    case True
    have "FindIndexFrom n table nm i = int i"
      using lt True by (subst FindIndexFrom_unfold) simp
    moreover have "i = k \<longleftrightarrow> (i \<le> k \<and> k < length table \<and> slotMatches n table nm k \<and>
      (\<forall>j. i \<le> j \<and> j < k \<longrightarrow> \<not> slotMatches n table nm j))"
    proof
      assume "i = k"
      with lt True show "i \<le> k \<and> k < length table \<and> slotMatches n table nm k \<and>
        (\<forall>j. i \<le> j \<and> j < k \<longrightarrow> \<not> slotMatches n table nm j)" by auto
    next
      assume a: "i \<le> k \<and> k < length table \<and> slotMatches n table nm k \<and>
        (\<forall>j. i \<le> j \<and> j < k \<longrightarrow> \<not> slotMatches n table nm j)"
      show "i = k"
      proof (rule ccontr)
        assume "i \<noteq> k"
        with a have "i < k" by simp
        with a True show False by blast
      qed
    qed
    ultimately show ?thesis by simp
  next
    case False
    have "FindIndexFrom n table nm i = FindIndexFrom n table nm (Suc i)"
      using lt False by (subst FindIndexFrom_unfold) simp
    also have "\<dots> = int k \<longleftrightarrow>
        (Suc i \<le> k \<and> k < length table \<and> slotMatches n table nm k \<and>
         (\<forall>j. Suc i \<le> j \<and> j < k \<longrightarrow> \<not> slotMatches n table nm j))"
      by (rule Suc.hyps(1) [OF d])
    also have "\<dots> \<longleftrightarrow> (i \<le> k \<and> k < length table \<and> slotMatches n table nm k \<and>
         (\<forall>j. i \<le> j \<and> j < k \<longrightarrow> \<not> slotMatches n table nm j))"
      using False by (metis Suc_leD Suc_leI le_neq_implies_less)
    finally show ?thesis .
  qed
qed

lemma FindIndexFrom_range:
  "FindIndexFrom n table nm i = - 1 \<or>
   (\<exists>k. FindIndexFrom n table nm i = int k \<and> i \<le> k \<and> k < length table)"
proof (induction "length table - i" arbitrary: i)
  case 0
  then show ?case by (subst FindIndexFrom_unfold) simp
next
  case (Suc d)
  then have lt: "i < length table" and d: "d = length table - Suc i" by simp_all
  from Suc.hyps(1) [OF d] lt show ?case
    by (subst (1 2) FindIndexFrom_unfold) (auto intro: Suc_leD)
qed

lemma FindIndex_miss:
  "FindIndex n table nm = - 1 \<longleftrightarrow> (\<forall>j. j < length table \<longrightarrow> \<not> slotMatches n table nm j)"
  by (simp add: FindIndex_def FindIndexFrom_miss)

lemma FindIndex_hit:
  "FindIndex n table nm = int k \<longleftrightarrow>
     (k < length table \<and> slotMatches n table nm k \<and> (\<forall>j. j < k \<longrightarrow> \<not> slotMatches n table nm j))"
  by (simp add: FindIndex_def FindIndexFrom_hit)

lemma FindIndex_range:
  "FindIndex n table nm = - 1 \<or> (\<exists>k. FindIndex n table nm = int k \<and> k < length table)"
  using FindIndexFrom_range [of n table nm 0] by (auto simp add: FindIndex_def)

definition boundEntry :: "nat \<Rightarrow> string \<Rightarrow> int \<Rightarrow> bool \<Rightarrow> DirectoryEntry" where
  "boundEntry n nm newSector AddDir =
     \<lparr>inUse = True, isDir = AddDir, sector = newSector, name = take n nm\<rparr>"

lemma entry_overwrite:
  "(e::DirectoryEntry)\<lparr>inUse := True, isDir := (if AddDir then True else False),
                            name := strncpy nm n, sector := newSector\<rparr> =
     boundEntry n nm newSector AddDir"
  by (cases e) (simp add: boundEntry_def strncpy_def)

lemma AddFrom_full:
  "(\<forall>j. i \<le> j \<and> j < length table \<longrightarrow> inUse (table ! j)) \<Longrightarrow>
     AddFrom n table nm newSector AddDir i = (False, table)"
proof (induction "length table - i" arbitrary: i)
  case 0
  then show ?case by (simp add: AddFrom.simps [of n table nm newSector AddDir i])
next
  case (Suc d)
  then have lt: "i < length table" and d: "d = length table - Suc i" by simp_all
  from Suc.prems lt have u: "inUse (table ! i)" by simp
  from Suc.prems have "\<forall>j. Suc i \<le> j \<and> j < length table \<longrightarrow> inUse (table ! j)" by simp
  from Suc.hyps(1) [OF d this] lt u show ?case
    by (simp add: AddFrom.simps [of n table nm newSector AddDir i])
qed

lemma AddFrom_slot:
  "i \<le> k \<Longrightarrow> k < length table \<Longrightarrow> \<not> inUse (table ! k) \<Longrightarrow>
   (\<forall>j. i \<le> j \<and> j < k \<longrightarrow> inUse (table ! j)) \<Longrightarrow>
     AddFrom n table nm newSector AddDir i = (True, table[k := boundEntry n nm newSector AddDir])"
proof (induction "k - i" arbitrary: i)
  case 0
  then have "i = k" by simp
  with 0 show ?case
    by (simp add: AddFrom.simps [of n table nm newSector AddDir k] entry_overwrite)
next
  case (Suc d)
  then have lt: "i < k" and d: "d = k - Suc i" by simp_all
  from Suc.prems lt have u: "inUse (table ! i)" by simp
  from Suc.prems have a: "\<forall>j. Suc i \<le> j \<and> j < k \<longrightarrow> inUse (table ! j)" by simp
  from lt have "Suc i \<le> k" by simp
  from Suc.hyps(1) [OF d this Suc.prems(2,3) a] lt u Suc.prems(2) show ?case
    by (simp add: AddFrom.simps [of n table nm newSector AddDir i])
qed

lemma AddFrom_success:
  "AddFrom n table nm newSector AddDir i = (True, table') \<Longrightarrow>
     \<exists>k. k < length table \<and> table' = table[k := boundEntry n nm newSector AddDir]"
proof (induction "length table - i" arbitrary: i)
  case 0
  then show ?case by (simp add: AddFrom.simps [of n table nm newSector AddDir i])
next
  case (Suc d)
  then have lt: "i < length table" and d: "d = length table - Suc i" by simp_all
  show ?case
  proof (cases "inUse (table ! i)")
    case True
    with Suc.prems lt have "AddFrom n table nm newSector AddDir (Suc i) = (True, table')"
      by (simp add: AddFrom.simps [of n table nm newSector AddDir i])
    from Suc.hyps(1) [OF d this] show ?thesis .
  next
    case False
    with Suc.prems lt have "table' = table[i := boundEntry n nm newSector AddDir]"
      by (simp add: AddFrom.simps [of n table nm newSector AddDir i] entry_overwrite)
    with lt show ?thesis by blast
  qed
qed

section \<open>The claims about Add and the names\<close>

text \<open>
  C7. \<open>Add\<close> fails, leaving the table as it is, when \<open>FindIndex\<close> finds the name;
  it fails in the same way when the name is not found and every slot is in use; otherwise,
  \<open>k\<close> being the lowest index of a slot not in use, it succeeds and the table differs
  from the old one in slot \<open>k\<close> only, which is in use and holds the flag, the sector
  and the first \<open>n\<close> characters of the name.
\<close>

theorem Add_contract:
  "(FindIndex n table nm \<noteq> - 1 \<longrightarrow> Add n table nm newSector AddDir = (False, table)) \<and>
   (FindIndex n table nm = - 1 \<and> (\<forall>j < length table. inUse (table ! j)) \<longrightarrow>
      Add n table nm newSector AddDir = (False, table)) \<and>
   (FindIndex n table nm = - 1 \<and> k < length table \<and> \<not> inUse (table ! k) \<and>
    (\<forall>j < k. inUse (table ! j)) \<longrightarrow>
      Add n table nm newSector AddDir =
        (True, table[k := \<lparr>inUse = True, isDir = AddDir, sector = newSector, name = take n nm\<rparr>]))"
proof (intro conjI impI)
  assume "FindIndex n table nm \<noteq> - 1"
  then show "Add n table nm newSector AddDir = (False, table)" by (simp add: Add_def)
next
  assume a: "FindIndex n table nm = - 1 \<and> (\<forall>j < length table. inUse (table ! j))"
  then have "AddFrom n table nm newSector AddDir 0 = (False, table)"
    by (intro AddFrom_full) simp
  with a show "Add n table nm newSector AddDir = (False, table)" by (simp add: Add_def)
next
  assume a: "FindIndex n table nm = - 1 \<and> k < length table \<and> \<not> inUse (table ! k) \<and>
    (\<forall>j < k. inUse (table ! j))"
  then have "AddFrom n table nm newSector AddDir 0 =
      (True, table[k := boundEntry n nm newSector AddDir])"
    by (intro AddFrom_slot) simp_all
  with a show "Add n table nm newSector AddDir =
        (True, table[k := \<lparr>inUse = True, isDir = AddDir, sector = newSector, name = take n nm\<rparr>])"
    by (simp add: Add_def boundEntry_def)
qed

text \<open>An entry in use, for the concrete tables below.\<close>

definition usedEntry :: "string \<Rightarrow> int \<Rightarrow> bool \<Rightarrow> DirectoryEntry" where
  "usedEntry nm s d = \<lparr>inUse = True, isDir = d, sector = s, name = nm\<rparr>"

lemma FindIndex_run_miss1: "FindIndex 9 [usedEntry ''a'' 3 False] ''b'' = - 1"
  by code_simp
lemma FindIndex_run_miss3: "FindIndex 9 [usedEntry ''a'' 3 False, emptyEntry, emptyEntry] ''b'' = - 1"
  by code_simp

theorem Add_contract_witness:
  "Add 9 [usedEntry ''a'' 3 False] ''a'' 7 True = (False, [usedEntry ''a'' 3 False]) \<and>
   Add 9 [usedEntry ''a'' 3 False] ''b'' 7 True = (False, [usedEntry ''a'' 3 False]) \<and>
   Add 9 [usedEntry ''a'' 3 False, emptyEntry, emptyEntry] ''b'' 7 True =
     (True, [usedEntry ''a'' 3 False, usedEntry ''b'' 7 True, emptyEntry])"
proof -
  have a: "FindIndex 9 [usedEntry ''a'' 3 False] ''a'' \<noteq> - 1"
  by code_simp
  have b: "FindIndex 9 [usedEntry ''a'' 3 False] ''b'' = - 1 \<and>
           (\<forall>j < length [usedEntry ''a'' 3 False]. inUse ([usedEntry ''a'' 3 False] ! j))"
    using FindIndex_run_miss1 by (simp add: usedEntry_def)
  have c: "FindIndex 9 [usedEntry ''a'' 3 False, emptyEntry, emptyEntry] ''b'' = - 1 \<and>
           1 < length [usedEntry ''a'' 3 False, emptyEntry, emptyEntry] \<and>
           \<not> inUse ([usedEntry ''a'' 3 False, emptyEntry, emptyEntry] ! 1) \<and>
           (\<forall>j < 1. inUse ([usedEntry ''a'' 3 False, emptyEntry, emptyEntry] ! j))"
    using FindIndex_run_miss3 by (simp add: usedEntry_def emptyEntry_def)
  from Add_contract [of 9 "[usedEntry ''a'' 3 False]" "''a''" 7 True 0] a
       Add_contract [of 9 "[usedEntry ''a'' 3 False]" "''b''" 7 True 0] b
       Add_contract [of 9 "[usedEntry ''a'' 3 False, emptyEntry, emptyEntry]" "''b''" 7 True 1] c
  show ?thesis by (simp add: usedEntry_def)
qed

lemma slotMatches_alias:
  "take n a = take n b \<Longrightarrow> slotMatches n table a j = slotMatches n table b j"
  by (simp add: slotMatches_def strncmpEq_def)

lemma FindIndexFrom_alias:
  assumes "take n a = take n b"
  shows "FindIndexFrom n table a i = FindIndexFrom n table b i"
proof (induction "length table - i" arbitrary: i)
  case 0
  then show ?case by (subst (1 2) FindIndexFrom_unfold) simp
next
  case (Suc d)
  then have d: "d = length table - Suc i" by simp
  from Suc.hyps(1) [OF d] slotMatches_alias [OF assms, of table i] show ?case
    by (subst (1 2) FindIndexFrom_unfold) simp
qed

lemma AddFrom_alias:
  assumes "take n a = take n b"
  shows "AddFrom n table a s d i = AddFrom n table b s d i"
proof (induction "length table - i" arbitrary: i)
  case 0
  then show ?case
    by (simp add: AddFrom.simps [of n table a s d i] AddFrom.simps [of n table b s d i])
next
  case (Suc x)
  then have d: "x = length table - Suc i" by simp
  from Suc.hyps(1) [OF d] assms show ?case
    by (simp add: AddFrom.simps [of n table a s d i] AddFrom.simps [of n table b s d i] strncpy_def)
qed

text \<open>
  C8. Two names with the same first \<open>n\<close> (\<open>FileNameMaxLen\<close>) characters are treated
  alike: \<open>FindIndex\<close> returns the same index for both, \<open>Add\<close> and \<open>Remove\<close> return
  the same result and table for both, and once \<open>Add\<close> of the first has succeeded, \<open>Add\<close>
  of the second fails as a duplicate. \<open>Remove\<close> of either name clears the \<open>inUse\<close> flag
  of the slot \<open>k\<close> that \<open>FindIndex\<close> finds for the first and changes nothing else; when
  \<open>FindIndex\<close> finds no slot, \<open>Remove\<close> of either fails and leaves the table as it is.
\<close>

theorem names_alias:
  assumes "take n a = take n b"
  shows "FindIndex n table a = FindIndex n table b \<and>
         Add n table a s d = Add n table b s d \<and>
         Remove n table a = Remove n table b \<and>
         (\<forall>table'. Add n table a s d = (True, table') \<longrightarrow>
            (\<forall>s' d'. Add n table' b s' d' = (False, table'))) \<and>
         (FindIndex n table a = int k \<longrightarrow>
            Remove n table a = (True, table[k := (table ! k)\<lparr>inUse := False\<rparr>]) \<and>
            Remove n table b = (True, table[k := (table ! k)\<lparr>inUse := False\<rparr>])) \<and>
         (FindIndex n table a = - 1 \<longrightarrow>
            Remove n table a = (False, table) \<and> Remove n table b = (False, table))"
proof -
  have f: "FindIndex n t a = FindIndex n t b" for t
    by (simp add: FindIndex_def FindIndexFrom_alias [OF assms])
  have g: "Add n table a s d = Add n table b s d"
    by (simp add: Add_def f AddFrom_alias [OF assms])
  have h: "Remove n table a = Remove n table b"
    by (simp add: Remove_def f)
  have "Add n table' b s' d' = (False, table')"
    if ok: "Add n table a s d = (True, table')" for table' s' d'
  proof -
    from ok have "AddFrom n table a s d 0 = (True, table')"
      by (simp add: Add_def split: if_splits)
    from AddFrom_success [OF this] obtain k where
      k: "k < length table" "table' = table[k := boundEntry n a s d]" by blast
    then have "slotMatches n table' b k"
      using assms by (simp add: slotMatches_def boundEntry_def strncmpEq_def)
    with k have "FindIndex n table' b \<noteq> - 1"
      by (auto simp add: FindIndex_miss)
    then show ?thesis by (simp add: Add_def)
  qed
  moreover have "Remove n table a = (True, table[k := (table ! k)\<lparr>inUse := False\<rparr>])"
    if "FindIndex n table a = int k"
    using that by (simp add: Remove_def)
  moreover have "Remove n table a = (False, table)" if "FindIndex n table a = - 1"
    using that by (simp add: Remove_def)
  ultimately show ?thesis using f g h by simp
qed

lemma Add_run_long_name: "Add 9 (Directory 2) ''filename_one'' 4 False =
    (True, [usedEntry ''filename_'' 4 False, emptyEntry])"
  by code_simp

theorem names_alias_witness:
  "take 9 ''filename_one'' = take 9 ''filename_two'' \<and>
   FindIndex 9 [usedEntry ''filename_'' 4 False, emptyEntry] ''filename_one'' = 0 \<and>
   FindIndex 9 [usedEntry ''filename_'' 4 False, emptyEntry] ''filename_two'' = 0 \<and>
   Add 9 [usedEntry ''filename_'' 4 False, emptyEntry] ''filename_two'' 5 False =
     (False, [usedEntry ''filename_'' 4 False, emptyEntry]) \<and>
   Remove 9 [usedEntry ''filename_'' 4 False, emptyEntry] ''filename_two'' =
   Remove 9 [usedEntry ''filename_'' 4 False, emptyEntry] ''filename_one'' \<and>
   Remove 9 [usedEntry ''filename_'' 4 False, emptyEntry] ''filename_two'' =
     (True, [\<lparr>inUse = False, isDir = False, sector = 4, name = ''filename_''\<rparr>, emptyEntry]) \<and>
   Remove 9 (Directory 2) ''filename_two'' = (False, Directory 2)"
proof -
  have e: "take 9 ''filename_one'' = take 9 ''filename_two''" by simp
  have z: "FindIndex 9 [usedEntry ''filename_'' 4 False, emptyEntry] ''filename_one'' = int 0"
    by code_simp
  have m: "FindIndex 9 (Directory 2) ''filename_one'' = - 1"
    by code_simp
  from names_alias [OF e, where table = "Directory 2" and s = 4 and d = False] Add_run_long_name
  have "Add 9 [usedEntry ''filename_'' 4 False, emptyEntry] ''filename_two'' 5 False =
     (False, [usedEntry ''filename_'' 4 False, emptyEntry])" by simp
  moreover from names_alias [OF e, where table = "Directory 2"] m
  have "Remove 9 (Directory 2) ''filename_two'' = (False, Directory 2)" by simp
  moreover from names_alias
      [OF e, where table = "[usedEntry ''filename_'' 4 False, emptyEntry]" and k = 0] z
  have "FindIndex 9 [usedEntry ''filename_'' 4 False, emptyEntry] ''filename_two'' = 0"
    "Remove 9 [usedEntry ''filename_'' 4 False, emptyEntry] ''filename_two'' =
     Remove 9 [usedEntry ''filename_'' 4 False, emptyEntry] ''filename_one''"
    "Remove 9 [usedEntry ''filename_'' 4 False, emptyEntry] ''filename_two'' =
     (True, [\<lparr>inUse = False, isDir = False, sector = 4, name = ''filename_''\<rparr>, emptyEntry])"
    by (simp_all add: usedEntry_def)
  ultimately show ?thesis using e z by simp
qed

section \<open>The lookup of the directory flag\<close>

text \<open>
  C4. In a directory without the name, \<open>FindIndex\<close> returns \<open>-1\<close>; \<open>FindisDir\<close>
  passes the \<open>-1\<close> on, but \<open>IsDir\<close> uses it as an index and reads outside the table.
\<close>

theorem IsDir_unbound_name:
  "FindIndex 9 (Directory 4) ''f'' = - 1 \<and>
   FindisDir 9 (Directory 4) ''f'' = - 1 \<and>
   IsDir 9 (Directory 4) ''f'' = Inl OutOfBounds"
 
  by code_simp

section \<open>Directory files\<close>

text \<open>
  Modelled from the spec: openfile.cc is not among the sources. The constructor
  \<open>OpenFile(sector)\<close> fetches the file header from the sector. \<open>Directory::FetchFrom\<close>
  reads \<open>tableSize\<close> entries from the start of the file into a table the constructor has
  cleared, and \<open>Directory::WriteBack\<close> writes the table over the start of the file; neither
  reaches beyond the end of the file, whose length does not change.
\<close>

definition OpenFile :: "fsys \<Rightarrow> int \<Rightarrow> failure + FileHeader" where
  "OpenFile st s = FetchFrom st s"

definition DirectoryFetchFrom :: "nat \<Rightarrow> fsys \<Rightarrow> int \<Rightarrow> DirectoryEntry list" where
  "DirectoryFetchFrom sz st s =
     take sz (dirFiles st s) @ drop (length (dirFiles st s)) (Directory sz)"

definition DirectoryWriteBack :: "fsys \<Rightarrow> DirectoryEntry list \<Rightarrow> int \<Rightarrow> fsys" where
  "DirectoryWriteBack st table s =
     st\<lparr>dirFiles := (dirFiles st)
           (s := take (length (dirFiles st s)) table @ drop (length table) (dirFiles st s))\<rparr>"

section \<open>Directory::RecursiveList\<close>

text \<open>
  The listing is the sequence of characters printed. \<open>entryLine num e\<close> is what the
  loop prints for an entry in use: \<open>num\<close> blanks when \<open>num\<close> is not zero, the tag and
  the name, and a newline.
\<close>

definition entryLine :: "int \<Rightarrow> DirectoryEntry \<Rightarrow> string" where
  "entryLine num e =
     (if num \<noteq> 0 then
        replicate (nat num) (CHR '' '') @
        (if isDir e then ''{D}: '' @ name e @ [CHR 0x0A] else ''{F}: '' @ name e @ [CHR 0x0A])
      else
        (if isDir e then ''{D}: '' @ name e @ [CHR 0x0A] else ''{F}: '' @ name e @ [CHR 0x0A]))"

text \<open>
  \<open>RecursiveListFrom sz st table num i\<close> is the loop of \<open>RecursiveList(num)\<close> from the
  slot \<open>i\<close> on; \<open>sz\<close> stands for the constant \<open>NumDirEntries\<close> of the absent
  directory.h. The test \<open>table[i].isDir\<close> that guards the recursion stands after the
  block guarded by \<open>table[i].inUse\<close>, not inside it. The recursion follows what the
  disk holds and need not end.
\<close>

partial_function (option) RecursiveListFrom ::
  "nat \<Rightarrow> fsys \<Rightarrow> DirectoryEntry list \<Rightarrow> int \<Rightarrow> nat \<Rightarrow> (failure + string) option" where
  "RecursiveListFrom sz st table num i =
     (if i < length table then
        (let out = (if inUse (table ! i) then entryLine num (table ! i) else [])
         in if isDir (table ! i) then
              (case OpenFile st (sector (table ! i)) of
                 Inl e \<Rightarrow> Some (Inl e)
               | Inr next_dir_hdr \<Rightarrow>
                   Option.bind
                     (RecursiveListFrom sz st (DirectoryFetchFrom sz st (sector (table ! i))) (num + 1) 0)
                     (\<lambda>r. case r of
                        Inl e \<Rightarrow> Some (Inl e)
                      | Inr sub \<Rightarrow>
                          Option.bind (RecursiveListFrom sz st table num (Suc i))
                            (\<lambda>r'. case r' of
                               Inl e \<Rightarrow> Some (Inl e)
                             | Inr rest \<Rightarrow> Some (Inr (out @ sub @ rest)))))
            else
              Option.bind (RecursiveListFrom sz st table num (Suc i))
                (\<lambda>r'. case r' of
                   Inl e \<Rightarrow> Some (Inl e)
                 | Inr rest \<Rightarrow> Some (Inr (out @ rest))))
      else Some (Inr []))"

declare RecursiveListFrom.simps [code]

definition RecursiveList :: "nat \<Rightarrow> fsys \<Rightarrow> DirectoryEntry list \<Rightarrow> int \<Rightarrow> (failure + string) option" where
  "RecursiveList sz st table num = RecursiveListFrom sz st table num 0"

text \<open>
  A device of eight sectors on which the file with its header in sector 5 holds a
  directory of one entry, the file \<open>x\<close>.
\<close>

definition staleDisk :: fsys where
  "staleDisk = (emptyDisk 8)\<lparr>dirFiles := (\<lambda>s. if s = 5 then [usedEntry ''x'' 7 False] else [])\<rparr>"

text \<open>
  C3. A directory entry is added as a subdirectory in sector 5 and removed again:
  \<open>Remove\<close> clears \<open>inUse\<close> and leaves \<open>isDir\<close> set. The listing of this table, which
  has no entry in use, still enters the removed subdirectory and prints its entry.
\<close>

theorem RecursiveList_enters_removed_directory:
  "snd (Remove 9 (snd (Add 9 (Directory 1) ''d'' 5 True)) ''d'') =
     [\<lparr>inUse = False, isDir = True, sector = 5, name = ''d''\<rparr>] \<and>
   RecursiveList 1 staleDisk [\<lparr>inUse = False, isDir = True, sector = 5, name = ''d''\<rparr>] 0 =
     Some (Inr ('' {F}: x'' @ [CHR 0x0A]))"
  by code_simp

section \<open>FileHeader::ByteToSector\<close>

text \<open>
  The three interior branches of \<open>ByteToSector\<close> differ in the threshold only.
  \<open>descend st hdr offset chunk\<close> is the body they share up to the recursive call: the index
  of the child, the fetch of the child header, and the offset inside the child.
\<close>

definition descend :: "fsys \<Rightarrow> FileHeader \<Rightarrow> int \<Rightarrow> int \<Rightarrow> failure + (FileHeader \<times> int)" where
  "descend st hdr offset chunk =
     (let sector = divRoundDown offset chunk in
      if sector < 0 \<or> int (length (dataSectors hdr)) \<le> sector then Inl OutOfBounds
      else (case FetchFrom st (dataSectors hdr ! nat sector) of
              Inl e \<Rightarrow> Inl e
            | Inr child \<Rightarrow> Inr (child, offset - sector * chunk)))"

partial_function (option) ByteToSector :: "fsys \<Rightarrow> FileHeader \<Rightarrow> int \<Rightarrow> (failure + int) option" where
  "ByteToSector st hdr offset =
     (if numBytes hdr > ThreeLevelSize then
        (case descend st hdr offset ThreeLevelSize of
           Inl e \<Rightarrow> Some (Inl e)
         | Inr (child, offset') \<Rightarrow> ByteToSector st child offset')
      else if numBytes hdr > TwoLevelSize then
        (case descend st hdr offset TwoLevelSize of
           Inl e \<Rightarrow> Some (Inl e)
         | Inr (child, offset') \<Rightarrow> ByteToSector st child offset')
      else if numBytes hdr > OneLevelSize then
        (case descend st hdr offset OneLevelSize of
           Inl e \<Rightarrow> Some (Inl e)
         | Inr (child, offset') \<Rightarrow> ByteToSector st child offset')
      else
        (let k = cdiv offset SectorSize in
         if k < 0 \<or> int (length (dataSectors hdr)) \<le> k then Some (Inl OutOfBounds)
         else Some (Inr (dataSectors hdr ! nat k))))"

declare ByteToSector.simps [code]

section \<open>FileHeader::Deallocate\<close>

text \<open>
  The operations that release sectors return, next to the state, the sectors they handed
  to \<open>Clear\<close>, in the order of the calls.
\<close>

function DeallocateLeaf :: "fsys \<Rightarrow> FileHeader \<Rightarrow> nat \<Rightarrow> failure + (fsys \<times> int list)" where
  "DeallocateLeaf st hdr i =
     (if int i < numSectors hdr then
        (if i \<ge> length (dataSectors hdr) then Inl OutOfBounds
         else (case Test (freeMap st) (dataSectors hdr ! i) of
                 Inl e \<Rightarrow> Inl e
               | Inr marked \<Rightarrow>
                   if \<not> marked then Inl AssertFailed
                   else (case Clear (freeMap st) (dataSectors hdr ! i) of
                           Inl e \<Rightarrow> Inl e
                         | Inr fm \<Rightarrow>
                             (case DeallocateLeaf (st\<lparr>freeMap := fm\<rparr>) hdr (Suc i) of
                                Inl e \<Rightarrow> Inl e
                              | Inr (st', cleared) \<Rightarrow> Inr (st', dataSectors hdr ! i # cleared)))))
      else Inr (st, []))"
  by pat_completeness auto
termination
  by (relation "measure (\<lambda>(st, hdr, i). nat (numSectors hdr) - i)") auto

declare DeallocateLeaf.simps [simp del]

text \<open>
  \<open>DeallocateFrom st hdr i\<close> is \<open>Deallocate\<close> from the round \<open>i\<close> of its loop on. The
  recursion follows the headers found on the disk and need not end.
\<close>

partial_function (option) DeallocateFrom ::
  "fsys \<Rightarrow> FileHeader \<Rightarrow> nat \<Rightarrow> (failure + (fsys \<times> int list)) option" where
  "DeallocateFrom st hdr i =
     (if numBytes hdr > OneLevelSize then
        (if int i < numSectors hdr then
           (if i \<ge> length (dataSectors hdr) then Some (Inl OutOfBounds)
            else (case FetchFrom st (dataSectors hdr ! i) of
                    Inl e \<Rightarrow> Some (Inl e)
                  | Inr child \<Rightarrow>
                      Option.bind (DeallocateFrom st child 0)
                        (\<lambda>r. case r of
                           Inl e \<Rightarrow> Some (Inl e)
                         | Inr (st1, below) \<Rightarrow>
                             (case Clear (freeMap st1) (dataSectors hdr ! i) of
                                Inl e \<Rightarrow> Some (Inl e)
                              | Inr fm \<Rightarrow>
                                  Option.bind (DeallocateFrom (st1\<lparr>freeMap := fm\<rparr>) hdr (Suc i))
                                    (\<lambda>r'. case r' of
                                       Inl e \<Rightarrow> Some (Inl e)
                                     | Inr (st2, cleared) \<Rightarrow>
                                         Some (Inr (st2, below @ dataSectors hdr ! i # cleared)))))))
         else Some (Inr (st, [])))
      else Some (DeallocateLeaf st hdr i))"

declare DeallocateFrom.simps [code]

definition Deallocate :: "fsys \<Rightarrow> FileHeader \<Rightarrow> (failure + (fsys \<times> int list)) option" where
  "Deallocate st hdr = DeallocateFrom st hdr 0"

section \<open>Directory::RecursiveRemove\<close>

partial_function (option) RecursiveRemoveFrom ::
  "nat \<Rightarrow> nat \<Rightarrow> fsys \<Rightarrow> DirectoryEntry list \<Rightarrow> nat \<Rightarrow>
     (failure + (DirectoryEntry list \<times> fsys \<times> int list)) option" where
  "RecursiveRemoveFrom n sz st table i =
     (if i < length table then
        (if inUse (table ! i) \<and> \<not> isDir (table ! i) then
           (case FetchFrom st (sector (table ! i)) of
              Inl e \<Rightarrow> Some (Inl e)
            | Inr hdr \<Rightarrow>
                Option.bind (Deallocate st hdr)
                  (\<lambda>r. case r of
                     Inl e \<Rightarrow> Some (Inl e)
                   | Inr (st1, below) \<Rightarrow>
                       (case Clear (freeMap st1) (sector (table ! i)) of
                          Inl e \<Rightarrow> Some (Inl e)
                        | Inr fm \<Rightarrow>
                            Option.bind
                              (RecursiveRemoveFrom n sz (st1\<lparr>freeMap := fm\<rparr>)
                                 (snd (Remove n table (name (table ! i)))) (Suc i))
                              (\<lambda>r'. case r' of
                                 Inl e \<Rightarrow> Some (Inl e)
                               | Inr (table', st', cleared) \<Rightarrow>
                                   Some (Inr (table', st', below @ sector (table ! i) # cleared))))))
         else if inUse (table ! i) \<and> isDir (table ! i) then
           (case OpenFile st (sector (table ! i)) of
              Inl e \<Rightarrow> Some (Inl e)
            | Inr next_dir_hdr \<Rightarrow>
                Option.bind
                  (RecursiveRemoveFrom n sz st (DirectoryFetchFrom sz st (sector (table ! i))) 0)
                  (\<lambda>r. case r of
                     Inl e \<Rightarrow> Some (Inl e)
                   | Inr (next_level_dir, st1, inside) \<Rightarrow>
                       (case FetchFrom (DirectoryWriteBack st1 next_level_dir (sector (table ! i)))
                               (sector (table ! i)) of
                          Inl e \<Rightarrow> Some (Inl e)
                        | Inr hdr \<Rightarrow>
                            Option.bind
                              (Deallocate (DirectoryWriteBack st1 next_level_dir (sector (table ! i))) hdr)
                              (\<lambda>r1. case r1 of
                                 Inl e \<Rightarrow> Some (Inl e)
                               | Inr (st2, below) \<Rightarrow>
                                   (case Clear (freeMap st2) (sector (table ! i)) of
                                      Inl e \<Rightarrow> Some (Inl e)
                                    | Inr fm \<Rightarrow>
                                        Option.bind
                                          (RecursiveRemoveFrom n sz (st2\<lparr>freeMap := fm\<rparr>)
                                             (snd (Remove n table (name (table ! i)))) (Suc i))
                                          (\<lambda>r'. case r' of
                                             Inl e \<Rightarrow> Some (Inl e)
                                           | Inr (table', st', cleared) \<Rightarrow>
                                               Some (Inr (table', st',
                                                 inside @ below @ sector (table ! i) # cleared))))))))
         else RecursiveRemoveFrom n sz st table (Suc i))
      else Some (Inr (table, st, [])))"

declare RecursiveRemoveFrom.simps [code]

definition RecursiveRemove ::
  "nat \<Rightarrow> nat \<Rightarrow> fsys \<Rightarrow> DirectoryEntry list \<Rightarrow>
     (failure + (DirectoryEntry list \<times> fsys \<times> int list)) option" where
  "RecursiveRemove n sz st table = RecursiveRemoveFrom n sz st table 0"

section \<open>Consistently allocated headers\<close>

text \<open>
  \<open>chunkOf nb\<close> is the number of bytes each child of an interior header of \<open>nb\<close> bytes
  covers: the threshold \<open>Allocate\<close> and \<open>ByteToSector\<close> use in the branch that \<open>nb\<close>
  selects.

  \<open>wfHeader hs h secs datas\<close>: on the disk \<open>hs\<close> the header \<open>h\<close> has the shape
  \<open>Allocate\<close> builds for \<open>numBytes h\<close> bytes. A leaf holds one data sector for each
  \<open>SectorSize\<close> bytes. An interior header holds one child for each \<open>chunkOf\<close> bytes,
  every child but the last covering a full chunk and the last one the rest, each child
  being consistent in turn. \<open>datas\<close> lists the data sectors in the order of the bytes of
  the file, \<open>secs\<close> lists every sector below \<open>h\<close>: for each child its own sectors
  and then the sector of its header.
\<close>

definition chunkOf :: "int \<Rightarrow> int" where
  "chunkOf nb =
     (if nb > ThreeLevelSize then ThreeLevelSize
      else if nb > TwoLevelSize then TwoLevelSize
      else OneLevelSize)"

inductive wfHeader :: "(int \<rightharpoonup> FileHeader) \<Rightarrow> FileHeader \<Rightarrow> int list \<Rightarrow> int list \<Rightarrow> bool"
  for hs :: "int \<rightharpoonup> FileHeader" where
  leaf:
    "\<lbrakk>0 \<le> numBytes h; numBytes h \<le> OneLevelSize;
      numSectors h = divRoundUp (numBytes h) SectorSize;
      length (dataSectors h) = NumDirect;
      ds = take (nat (numSectors h)) (dataSectors h)\<rbrakk>
     \<Longrightarrow> wfHeader hs h ds ds"
| interior:
    "\<lbrakk>OneLevelSize < numBytes h;
      numSectors h = divRoundUp (numBytes h) (chunkOf (numBytes h));
      numSectors h \<le> int NumDirect;
      length (dataSectors h) = NumDirect;
      \<forall>i. i < nat (numSectors h) \<longrightarrow>
         hs (dataSectors h ! i) = Some (child i) \<and>
         numBytes (child i) =
           (if int (Suc i) < numSectors h then chunkOf (numBytes h)
            else numBytes h - int i * chunkOf (numBytes h)) \<and>
         wfHeader hs (child i) (below i) (content i);
      secs = concat (map (\<lambda>i. below i @ [dataSectors h ! i]) [0..<nat (numSectors h)]);
      datas = concat (map content [0..<nat (numSectors h)])\<rbrakk>
     \<Longrightarrow> wfHeader hs h secs datas"


lemma length_concat_uniform:
  "\<forall>j<i. length (f j) = m \<Longrightarrow> length (concat (map f [0..<i])) = i * m"
  by (induction i) simp_all

lemma concat_nth_block:
  assumes u: "\<forall>j<i. length (f j) = m" and i: "i < n" and k: "k < length (f i)"
  shows "concat (map f [0..<n]) ! (i * m + k) = f i ! k"
proof -
  have "[0..<n] = [0..<i + (n - i)]" using i by simp
  also have "\<dots> = [0..<i] @ [i..<i + (n - i)]" by (rule upt_add_eq_append) simp
  also have "[i..<i + (n - i)] = i # [Suc i..<n]" using i by (simp add: upt_conv_Cons)
  finally have "[0..<n] = [0..<i] @ i # [Suc i..<n]" .
  then have "concat (map f [0..<n]) = concat (map f [0..<i]) @ f i @ concat (map f [Suc i..<n])"
    by simp
  then show ?thesis
    using length_concat_uniform [OF u] k by (simp add: nth_append)
qed

lemma chunkOf_cases: "chunkOf nb = 30 * 128 \<or> chunkOf nb = 900 * 128 \<or> chunkOf nb = 27000 * 128"
  by (simp add: chunkOf_def OneLevelSize_def TwoLevelSize_def ThreeLevelSize_def)

lemma ar_rest:
  assumes "(0::int) < c"
  shows "0 \<le> off - (off div c) * c \<and> off - (off div c) * c < c"
  using assms by (simp add: minus_div_mult_eq_mod)

lemma ar_index:
  assumes c: "(0::int) < c" and "0 \<le> off" "off < nb"
  shows "0 \<le> off div c \<and> off div c < - ((- nb) div c)"
proof
  show "0 \<le> off div c" using assms by (simp add: pos_imp_zdiv_nonneg_iff)
  show "off div c < - ((- nb) div c)"
  proof (rule ccontr)
    assume "\<not> off div c < - ((- nb) div c)"
    then have "- (off div c) \<le> (- nb) div c" by simp
    then have "- (off div c) * c \<le> (- nb) div c * c"
      using c by (intro mult_right_mono) simp_all
    moreover have "(- nb) div c * c \<le> - nb" using ar_rest [OF c, of "- nb"] by simp
    moreover have "off div c * c \<le> off" using ar_rest [OF c, of off] by simp
    ultimately show False using assms by simp
  qed
qed

lemma ar_split:
  assumes "c = m * (128::int)"
  shows "off div 128 = (off div c) * m + (off - (off div c) * c) div 128"
proof -
  have "off = (off div c) * m * 128 + (off - (off div c) * c)"
    by (simp add: assms)
  then have "off div 128 = ((off div c) * m * 128 + (off - (off div c) * c)) div 128"
    by (rule arg_cong)
  also have "\<dots> = (off div c) * m + (off - (off div c) * c) div 128"
    by (rule div_mult_self3) simp
  finally show ?thesis .
qed

lemma ar_ceil: "0 \<le> off \<Longrightarrow> off < x \<Longrightarrow> off div 128 < - ((- x) div (128::int))"
  using ar_index [of 128 off x] by simp

lemma ceil_nonneg: "0 \<le> x \<Longrightarrow> 0 \<le> - ((- x) div (128::int))"
  by (simp add: div_nonpos_pos_le0)

lemma ceil_mono: "x \<le> y \<Longrightarrow> - ((- x) div (128::int)) \<le> - ((- y) div 128)"
  by (simp add: zdiv_mono1)

lemma ar_total:
  assumes "c = m * (128::int)"
  shows "(n - 1) * m + - ((- (nb - (n - 1) * c)) div 128) = - ((- nb) div (128::int))"
proof -
  have "- (nb - (n - 1) * c) = (n - 1) * m * 128 + (- nb)"
    by (simp add: assms)
  then have "(- (nb - (n - 1) * c)) div 128 = ((n - 1) * m * 128 + (- nb)) div 128"
    by (rule arg_cong)
  also have "\<dots> = (n - 1) * m + (- nb) div 128"
    by (rule div_mult_self3) simp
  finally show ?thesis by simp
qed

lemma levels_ordered:
  "OneLevelSize < TwoLevelSize" "TwoLevelSize < ThreeLevelSize" "0 < OneLevelSize"
  by (simp_all add: OneLevelSize_def TwoLevelSize_def ThreeLevelSize_def)

lemma ByteToSector_interior:
  "OneLevelSize < numBytes h \<Longrightarrow>
     ByteToSector st h off =
       (case descend st h off (chunkOf (numBytes h)) of
          Inl e \<Rightarrow> Some (Inl e)
        | Inr (child, off') \<Rightarrow> ByteToSector st child off')"
  using levels_ordered by (subst ByteToSector.simps) (simp add: chunkOf_def)

lemma ByteToSector_leaf:
  "numBytes h \<le> OneLevelSize \<Longrightarrow>
     ByteToSector st h off =
       (let k = cdiv off SectorSize in
        if k < 0 \<or> int (length (dataSectors h)) \<le> k then Some (Inl OutOfBounds)
        else Some (Inr (dataSectors h ! nat k)))"
  using levels_ordered by (subst ByteToSector.simps) simp

lemma chunkOf_sectors: "\<exists>m. 0 < m \<and> chunkOf nb = m * 128"
  using chunkOf_cases [of nb]
proof (elim disjE)
  assume "chunkOf nb = 30 * 128"
  then show ?thesis by (intro exI [of _ 30]) simp
next
  assume "chunkOf nb = 900 * 128"
  then show ?thesis by (intro exI [of _ 900]) simp
next
  assume "chunkOf nb = 27000 * 128"
  then show ?thesis by (intro exI [of _ 27000]) simp
qed

lemma chunkOf_pos: "0 < chunkOf nb"
  using chunkOf_cases [of nb] by auto

lemma ceil_bounds:
  assumes c: "(0::int) < c"
  shows "(- ((- nb) div c) - 1) * c < nb \<and> nb \<le> - ((- nb) div c) * c"
  using ar_rest [OF c, of "- nb"] by (simp add: algebra_simps)

text \<open>The facts about a consistently allocated interior header that the proofs share.\<close>

lemma interior_facts:
  assumes nb: "OneLevelSize < numBytes h"
    and n: "numSectors h = divRoundUp (numBytes h) (chunkOf (numBytes h))"
  shows "1 \<le> numSectors h"
    and "(numSectors h - 1) * chunkOf (numBytes h) < numBytes h"
    and "numBytes h \<le> numSectors h * chunkOf (numBytes h)"
    and "0 \<le> off \<Longrightarrow> off < numBytes h \<Longrightarrow>
           0 \<le> off div chunkOf (numBytes h) \<and> off div chunkOf (numBytes h) < numSectors h"
proof -
  let ?c = "chunkOf (numBytes h)"
  have c: "0 < ?c" by (rule chunkOf_pos)
  have n': "numSectors h = - ((- numBytes h) div ?c)" by (simp add: n divRoundUp_alt [OF c])
  from ceil_bounds [OF c, of "numBytes h"]
  show "(numSectors h - 1) * ?c < numBytes h" "numBytes h \<le> numSectors h * ?c"
    by (simp_all add: n')
  have "0 < numBytes h" using nb levels_ordered by simp
  with ar_index [OF c, of 0 "numBytes h"] show "1 \<le> numSectors h" by (simp add: n')
  show "0 \<le> off div ?c \<and> off div ?c < numSectors h" if "0 \<le> off" "off < numBytes h"
    using ar_index [OF c that] by (simp add: n')
qed

lemma descend_wf:
  assumes nb: "OneLevelSize < numBytes h"
    and n: "numSectors h = divRoundUp (numBytes h) (chunkOf (numBytes h))"
    and le: "numSectors h \<le> int NumDirect"
    and len: "length (dataSectors h) = NumDirect"
    and ch: "\<forall>i. i < nat (numSectors h) \<longrightarrow> headers st (dataSectors h ! i) = Some (child i)"
    and off: "0 \<le> off" "off < numBytes h"
  shows "descend st h off (chunkOf (numBytes h)) =
           Inr (child (nat (off div chunkOf (numBytes h))),
                off - (off div chunkOf (numBytes h)) * chunkOf (numBytes h))"
proof -
  let ?c = "chunkOf (numBytes h)"
  have c: "0 < ?c" by (rule chunkOf_pos)
  from interior_facts(4) [OF nb n off] have i: "0 \<le> off div ?c" "off div ?c < numSectors h"
    by simp_all
  have d: "divRoundDown off ?c = off div ?c"
    using off c by (simp add: divRoundDown_def cdiv_def)
  from i have "nat (off div ?c) < nat (numSectors h)" by simp
  with ch have "headers st (dataSectors h ! nat (off div ?c)) = Some (child (nat (off div ?c)))"
    by blast
  with i le len show ?thesis
    by (simp add: descend_def d FetchFrom_def Let_def)
qed

lemma ByteToSector_wf:
  assumes "wfHeader (headers st) h secs datas"
  shows "length datas = nat (divRoundUp (numBytes h) SectorSize) \<and>
         (\<forall>off. 0 \<le> off \<and> off < numBytes h \<longrightarrow>
            ByteToSector st h off = Some (Inr (datas ! nat (off div SectorSize))))"
  using assms
proof (induction rule: wfHeader.induct)
  case (leaf h ds)
  have s: "(0::int) < 128" by simp
  have n: "numSectors h = - ((- numBytes h) div 128)"
    using leaf by (simp add: divRoundUp_alt [OF s] SectorSize_def)
  have n30: "numSectors h \<le> 30" "0 \<le> numSectors h"
    using ceil_mono [of "numBytes h" 3840] ceil_nonneg [of "numBytes h"] leaf(1,2)
    by (simp_all add: n OneLevelSize_def)
  have len: "length ds = nat (numSectors h)"
    using leaf n30 by (simp add: NumDirect_def)
  have "ByteToSector st h off = Some (Inr (ds ! nat (off div SectorSize)))"
    if off: "0 \<le> off" "off < numBytes h" for off
  proof -
    have k: "off div 128 < numSectors h" "0 \<le> off div 128"
      using off ar_ceil [of off "numBytes h"] by (simp_all add: n pos_imp_zdiv_nonneg_iff)
    then have "ds ! nat (off div 128) = dataSectors h ! nat (off div 128)"
      using leaf(5) by simp
    with k n30 leaf(4) off show ?thesis
      by (simp add: ByteToSector_leaf [OF leaf(2)] cdiv_def SectorSize_def NumDirect_def)
  qed
  with len leaf(3) show ?case by simp
next
  case (interior h child below content secs datas)
  let ?nb = "numBytes h"
  let ?c = "chunkOf ?nb"
  let ?n = "numSectors h"
  obtain m where m: "0 < m" "?c = m * 128" using chunkOf_sectors by blast
  have c: "0 < ?c" by (rule chunkOf_pos)
  note f = interior_facts [OF interior.hyps(1,2)]
  have s: "(0::int) < 128" by simp
  have dru: "divRoundUp x SectorSize = - ((- x) div 128)" for x
    by (simp add: divRoundUp_alt [OF s] SectorSize_def)
  have full: "length (content j) = nat m" if "int (Suc j) < ?n" for j
  proof -
    from that have "j < nat ?n" by simp
    from interior.IH [rule_format, OF this] that have "numBytes (child j) = ?c"
      "length (content j) = nat (divRoundUp (numBytes (child j)) SectorSize)" by simp_all
    then show ?thesis by (simp add: dru m)
  qed
  have ch: "\<forall>i. i < nat ?n \<longrightarrow> headers st (dataSectors h ! i) = Some (child i)"
    using interior.IH by blast
  have len: "length datas = nat (divRoundUp ?nb SectorSize)"
  proof -
    define k where "k = nat ?n - 1"
    have k: "nat ?n = Suc k" "int k = ?n - 1" using f(1) by (simp_all add: k_def)
    have u: "\<forall>j<k. length (content j) = nat m" using full k by simp
    have "k < nat ?n" using k by simp
    from interior.IH [rule_format, OF this] k have last: "numBytes (child k) = ?nb - int k * ?c"
      "length (content k) = nat (divRoundUp (numBytes (child k)) SectorSize)" by simp_all
    have pos: "0 \<le> - ((- (?nb - (?n - 1) * ?c)) div 128)"
      using f(2) by (intro ceil_nonneg) simp
    have lk: "int (length (content k)) = - ((- (?nb - (?n - 1) * ?c)) div 128)"
      using pos by (simp add: last dru k(2))
    have "int (k * nat m + length (content k)) =
        (?n - 1) * m + - ((- (?nb - (?n - 1) * ?c)) div 128)"
      using m(1) by (simp add: lk k(2))
    then have "nat (int (k * nat m + length (content k))) =
        nat ((?n - 1) * m + - ((- (?nb - (?n - 1) * ?c)) div 128))"
      by (rule arg_cong)
    then have e: "k * nat m + length (content k) =
        nat ((?n - 1) * m + - ((- (?nb - (?n - 1) * ?c)) div 128))"
      by (simp only: nat_int)
    have "length datas = k * nat m + length (content k)"
      using interior.hyps(6) k(1) length_concat_uniform [OF u] by simp
    also have "\<dots> = nat ((?n - 1) * m + - ((- (?nb - (?n - 1) * ?c)) div 128))"
      by (rule e)
    also have "\<dots> = nat (divRoundUp ?nb SectorSize)"
      by (simp only: ar_total [OF m(2)] dru)
    finally show ?thesis .
  qed
  have "ByteToSector st h off = Some (Inr (datas ! nat (off div SectorSize)))"
    if off: "0 \<le> off" "off < ?nb" for off
  proof -
    define i where "i = off div ?c"
    define off' where "off' = off - i * ?c"
    from f(4) [OF off] have i: "0 \<le> i" "i < ?n" by (simp_all add: i_def)
    then have ni: "nat i < nat ?n" by simp
    from ar_rest [OF c, of off] have r: "0 \<le> off'" "off' < ?c" by (simp_all add: off'_def i_def)
    from interior.IH [rule_format, OF ni] have chi: "numBytes (child (nat i)) =
        (if int (Suc (nat i)) < ?n then ?c else ?nb - int (nat i) * ?c)"
      and li: "length (content (nat i)) = nat (divRoundUp (numBytes (child (nat i))) SectorSize)"
      and ih: "\<forall>o'. 0 \<le> o' \<and> o' < numBytes (child (nat i)) \<longrightarrow>
          ByteToSector st (child (nat i)) o' =
            Some (Inr (content (nat i) ! nat (o' div SectorSize)))"
      by simp_all
    have lt: "off' < numBytes (child (nat i))"
      using chi r off i by (auto simp add: off'_def)
    from descend_wf [OF interior.hyps(1,2,3,4) ch off]
    have "ByteToSector st h off = ByteToSector st (child (nat i)) off'"
      by (simp add: ByteToSector_interior [OF interior.hyps(1)] i_def off'_def)
    also have "\<dots> = Some (Inr (content (nat i) ! nat (off' div SectorSize)))"
      using ih r lt by simp
    finally have b: "ByteToSector st h off = Some (Inr (content (nat i) ! nat (off' div 128)))"
      by (simp add: SectorSize_def)
    have u: "\<forall>j<nat i. length (content j) = nat m"
      using full i by simp
    have k: "nat (off' div 128) < length (content (nat i))"
      using ar_ceil [OF r(1) lt] r(1) by (simp add: li dru pos_imp_zdiv_nonneg_iff)
    have "off div 128 = i * m + off' div 128"
      using ar_split [OF m(2), of off] by (simp add: i_def off'_def)
    then have "nat (off div 128) = nat i * nat m + nat (off' div 128)"
      using i m(1) r(1) by (simp add: nat_add_distrib nat_mult_distrib pos_imp_zdiv_nonneg_iff)
    with concat_nth_block [OF u ni k] interior.hyps(6)
    have "datas ! nat (off div 128) = content (nat i) ! nat (off' div 128)" by simp
    with b show ?thesis by (simp add: SectorSize_def)
  qed
  with len show ?case by simp
qed

section \<open>A file of 4000 bytes\<close>

text \<open>
  A file of 4000 bytes on an empty device of 64 sectors: a sector is reserved for the
  header, \<open>Allocate\<close> builds the index tree, and the header is written to its sector.
  The header is interior with two children, in the sectors 1 and 32.
\<close>

definition bigRun :: "FileHeader \<times> fsys" where
  "bigRun =
     (case FindAndSet (freeMap (emptyDisk 64)) of
        (s, fm) \<Rightarrow>
          (case Allocate ((emptyDisk 64)\<lparr>freeMap := fm\<rparr>) newFileHeader 4000 of
             Inl e \<Rightarrow> (newFileHeader, emptyDisk 64)
           | Inr (ok, h, st) \<Rightarrow>
               (case WriteBack st h s of Inl e \<Rightarrow> (h, st) | Inr st' \<Rightarrow> (h, st'))))"

definition bigHdr :: FileHeader where
  "bigHdr = fst bigRun"

definition bigDisk :: fsys where
  "bigDisk = snd bigRun"

definition bigData0 :: "int list" where
  "bigData0 =
     [2, 3, 4, 5, 6, 7, 8, 9, 10, 11, 12, 13, 14, 15, 16, 17, 18, 19, 20, 21,
      22, 23, 24, 25, 26, 27, 28, 29, 30, 31]"

definition bigChild0 :: FileHeader where
  "bigChild0 = \<lparr>numBytes = 3840, numSectors = 30, dataSectors = bigData0\<rparr>"

definition bigChild1 :: FileHeader where
  "bigChild1 = \<lparr>numBytes = 160, numSectors = 2, dataSectors = 33 # 34 # replicate 28 (- 1)\<rparr>"

lemma bigHdr_eq:
  "bigHdr = \<lparr>numBytes = 4000, numSectors = 2, dataSectors = 1 # 32 # replicate 28 (- 1)\<rparr>"
  by code_simp

lemma bigDisk_headers:
  "headers bigDisk 1 = Some bigChild0" "headers bigDisk 32 = Some bigChild1"
  "headers bigDisk 0 = Some bigHdr"
  by code_simp+

lemma bigDisk_freeMap: "freeMap bigDisk = replicate 35 True @ replicate 29 False"
  by code_simp

lemma bigData0_length: "length bigData0 = 30"
  by (simp add: bigData0_def)

lemma bigData0_nth: "bigData0 ! Suc 0 = 3" "(bigData0 @ [33, 34]) ! 30 = 33"
  by (simp_all add: bigData0_def)

lemma bigChild_numBytes: "numBytes bigChild0 = 3840" "numBytes bigChild1 = 160"
  by (simp_all add: bigChild0_def bigChild1_def)

lemma wf_bigChild0: "wfHeader hs bigChild0 bigData0 bigData0"
  by (rule wfHeader.leaf)
     (simp_all add: bigChild0_def OneLevelSize_def SectorSize_def NumDirect_def divRoundUp_def
        cdiv_def cmod_def bigData0_length)

lemma wf_bigChild1: "wfHeader hs bigChild1 [33, 34] [33, 34]"
  by (rule wfHeader.leaf)
     (simp_all add: bigChild1_def OneLevelSize_def SectorSize_def NumDirect_def divRoundUp_def
        cdiv_def cmod_def)

lemma wf_bigHdr:
  "wfHeader (headers bigDisk) bigHdr
     (bigData0 @ [1] @ [33, 34] @ [32]) (bigData0 @ [33, 34])"
proof (rule wfHeader.interior
    [where child = "\<lambda>i. if i = 0 then bigChild0 else bigChild1"
       and below = "\<lambda>i. if i = 0 then bigData0 else [33, 34]"
       and content = "\<lambda>i. if i = 0 then bigData0 else [33, 34]"])
  have c: "chunkOf (numBytes bigHdr) = 3840"
    by (simp add: bigHdr_eq chunkOf_def OneLevelSize_def TwoLevelSize_def ThreeLevelSize_def)
  show "OneLevelSize < numBytes bigHdr" by (simp add: bigHdr_eq OneLevelSize_def)
  show "numSectors bigHdr = divRoundUp (numBytes bigHdr) (chunkOf (numBytes bigHdr))"
    unfolding c by (simp add: bigHdr_eq divRoundUp_def cdiv_def cmod_def)
  show "numSectors bigHdr \<le> int NumDirect" by (simp add: bigHdr_eq NumDirect_def)
  show "length (dataSectors bigHdr) = NumDirect" by (simp add: bigHdr_eq NumDirect_def)
  show "\<forall>i. i < nat (numSectors bigHdr) \<longrightarrow>
      headers bigDisk (dataSectors bigHdr ! i) = Some (if i = 0 then bigChild0 else bigChild1) \<and>
      numBytes (if i = 0 then bigChild0 else bigChild1) =
        (if int (Suc i) < numSectors bigHdr then chunkOf (numBytes bigHdr)
         else numBytes bigHdr - int i * chunkOf (numBytes bigHdr)) \<and>
      wfHeader (headers bigDisk) (if i = 0 then bigChild0 else bigChild1)
        (if i = 0 then bigData0 else [33, 34])
        (if i = 0 then bigData0 else [33, 34])"
  proof (intro allI impI)
    fix i assume "i < nat (numSectors bigHdr)"
    then have "i = 0 \<or> i = 1" by (auto simp add: bigHdr_eq)
    then show "headers bigDisk (dataSectors bigHdr ! i) =
        Some (if i = 0 then bigChild0 else bigChild1) \<and>
      numBytes (if i = 0 then bigChild0 else bigChild1) =
        (if int (Suc i) < numSectors bigHdr then chunkOf (numBytes bigHdr)
         else numBytes bigHdr - int i * chunkOf (numBytes bigHdr)) \<and>
      wfHeader (headers bigDisk) (if i = 0 then bigChild0 else bigChild1)
        (if i = 0 then bigData0 else [33, 34])
        (if i = 0 then bigData0 else [33, 34])"
      unfolding c
      by (elim disjE)
         (simp_all add: bigDisk_headers wf_bigChild0 wf_bigChild1 bigHdr_eq bigChild_numBytes)
  qed
  have n: "[0..<nat (numSectors bigHdr)] = [0, 1]"
    by (simp add: bigHdr_eq upt_rec)
  show "bigData0 @ [1] @ [33, 34] @ [32] =
      concat (map (\<lambda>i. (if i = 0 then bigData0 else [33, 34]) @ [dataSectors bigHdr ! i])
                  [0..<nat (numSectors bigHdr)])"
    unfolding n by (simp add: bigHdr_eq)
  show "bigData0 @ [33, 34] =
      concat (map (\<lambda>i. if i = 0 then bigData0 else [33, 34])
                  [0..<nat (numSectors bigHdr)])"
    unfolding n by simp
qed

section \<open>The claim about ByteToSector\<close>

text \<open>
  C6. For a consistently allocated header and an offset inside the file, \<open>ByteToSector\<close>
  returns \<open>dataSectors[offset / SectorSize]\<close> when the header is a leaf; when it is
  interior it takes the child in the slot \<open>offset / chunk\<close>, \<open>chunk\<close> being the capacity
  of one level below, fetches its header and answers what that header answers for
  \<open>offset - (offset / chunk) * chunk\<close>. In both cases the result is the data sector that
  holds the byte: the one at position \<open>offset / SectorSize\<close> among the data sectors of the
  file.
\<close>

theorem ByteToSector_contract:
  assumes "wfHeader (headers st) hdr secs datas" and "0 \<le> offset" and "offset < numBytes hdr"
  shows "(numBytes hdr \<le> OneLevelSize \<longrightarrow>
            ByteToSector st hdr offset =
              Some (Inr (dataSectors hdr ! nat (offset div SectorSize)))) \<and>
         (OneLevelSize < numBytes hdr \<longrightarrow>
            (\<exists>child.
               FetchFrom st (dataSectors hdr ! nat (offset div chunkOf (numBytes hdr))) = Inr child \<and>
               ByteToSector st hdr offset =
                 ByteToSector st child
                   (offset - (offset div chunkOf (numBytes hdr)) * chunkOf (numBytes hdr)))) \<and>
         ByteToSector st hdr offset = Some (Inr (datas ! nat (offset div SectorSize)))"
proof (intro conjI impI)
  from ByteToSector_wf [OF assms(1)] assms(2,3)
  show r: "ByteToSector st hdr offset = Some (Inr (datas ! nat (offset div SectorSize)))"
    by simp
  show "ByteToSector st hdr offset = Some (Inr (dataSectors hdr ! nat (offset div SectorSize)))"
    if l: "numBytes hdr \<le> OneLevelSize"
    using assms(1)
  proof (cases rule: wfHeader.cases)
    case leaf
    have s: "(0::int) < 128" by simp
    have n: "numSectors hdr = - ((- numBytes hdr) div 128)"
      using leaf by (simp add: divRoundUp_alt [OF s] SectorSize_def)
    have "offset div 128 < numSectors hdr" "0 \<le> offset div 128"
      using assms(2,3) ar_ceil [of offset "numBytes hdr"]
      by (simp_all add: n pos_imp_zdiv_nonneg_iff)
    then have "datas ! nat (offset div 128) = dataSectors hdr ! nat (offset div 128)"
      using leaf by simp
    with r show ?thesis by (simp add: SectorSize_def)
  next
    case (interior child below content)
    with l show ?thesis by simp
  qed
  show "\<exists>child.
      FetchFrom st (dataSectors hdr ! nat (offset div chunkOf (numBytes hdr))) = Inr child \<and>
      ByteToSector st hdr offset =
        ByteToSector st child
          (offset - (offset div chunkOf (numBytes hdr)) * chunkOf (numBytes hdr))"
    if i: "OneLevelSize < numBytes hdr"
    using assms(1)
  proof (cases rule: wfHeader.cases)
    case leaf
    with i show ?thesis by simp
  next
    case (interior child below content)
    let ?c = "chunkOf (numBytes hdr)"
    have ch: "\<forall>i. i < nat (numSectors hdr) \<longrightarrow>
        headers st (dataSectors hdr ! i) = Some (child i)"
      using interior(5) by blast
    from interior_facts(4) [OF interior(1,2) assms(2,3)]
    have "nat (offset div ?c) < nat (numSectors hdr)" by simp
    with ch have "FetchFrom st (dataSectors hdr ! nat (offset div ?c)) =
        Inr (child (nat (offset div ?c)))"
      by (simp add: FetchFrom_def)
    moreover from descend_wf [OF interior(1,2,3,4) ch assms(2,3)]
    have "ByteToSector st hdr offset =
        ByteToSector st (child (nat (offset div ?c))) (offset - (offset div ?c) * ?c)"
      by (simp add: ByteToSector_interior [OF interior(1)])
    ultimately show ?thesis by blast
  qed
qed

theorem ByteToSector_contract_witness:
  "ByteToSector bigDisk bigHdr 3900 = Some (Inr 33) \<and>
   ByteToSector bigDisk bigHdr 3900 = ByteToSector bigDisk bigChild1 60 \<and>
   ByteToSector bigDisk bigChild0 200 = Some (Inr 3) \<and>
   ByteToSector bigDisk bigChild0 200 = Some (Inr (dataSectors bigChild0 ! 1))"
proof -
  have a: "(0::int) \<le> 3900" "3900 < numBytes bigHdr" "OneLevelSize < numBytes bigHdr"
    by (simp_all add: bigHdr_eq OneLevelSize_def)
  have c: "chunkOf (numBytes bigHdr) = 3840"
    by (simp add: bigHdr_eq chunkOf_def OneLevelSize_def TwoLevelSize_def ThreeLevelSize_def)
  have f: "FetchFrom bigDisk 32 = Inr bigChild1"
    by (simp add: FetchFrom_def bigDisk_headers)
  from ByteToSector_contract [OF wf_bigHdr a(1,2)] a(3)
  have "ByteToSector bigDisk bigHdr 3900 = Some (Inr 33)"
    "ByteToSector bigDisk bigHdr 3900 = ByteToSector bigDisk bigChild1 60"
    unfolding c by (auto simp add: SectorSize_def bigData0_nth bigHdr_eq f)
  moreover
  have b: "(0::int) \<le> 200" "200 < numBytes bigChild0" "numBytes bigChild0 \<le> OneLevelSize"
    by (simp_all add: bigChild0_def OneLevelSize_def)
  from ByteToSector_contract [OF wf_bigChild0 b(1,2), of bigDisk] b(3)
  have "ByteToSector bigDisk bigChild0 200 = Some (Inr 3)"
    "ByteToSector bigDisk bigChild0 200 = Some (Inr (dataSectors bigChild0 ! 1))"
    by (auto simp add: SectorSize_def bigData0_nth bigChild0_def)
  ultimately show ?thesis by simp
qed

section \<open>Releasing the sectors of a header\<close>

text \<open>
  \<open>clearAll fm secs\<close> is the bitmap \<open>fm\<close> after \<open>Clear\<close> of each sector of \<open>secs\<close>;
  \<open>marked fm secs\<close> says that every sector of \<open>secs\<close> is a sector of the bitmap and
  is in use.
\<close>

definition clearAll :: "bitmap \<Rightarrow> int list \<Rightarrow> bitmap" where
  "clearAll fm secs = fold (\<lambda>s bits. bits[nat s := False]) secs fm"

definition marked :: "bitmap \<Rightarrow> int list \<Rightarrow> bool" where
  "marked fm secs = list_all (\<lambda>s. validBit fm s \<and> fm ! nat s) secs"

lemma clearAll_Nil [simp]: "clearAll fm [] = fm"
  by (simp add: clearAll_def)

lemma clearAll_Cons: "clearAll fm (s # secs) = clearAll (fm[nat s := False]) secs"
  by (simp add: clearAll_def)

lemma clearAll_append: "clearAll fm (xs @ ys) = clearAll (clearAll fm xs) ys"
  by (simp add: clearAll_def)

lemma clearAll_snoc: "clearAll fm (xs @ [s]) = (clearAll fm xs)[nat s := False]"
  by (simp add: clearAll_def)

lemma length_clearAll [simp]: "length (clearAll fm secs) = length fm"
  by (induction secs arbitrary: fm) (simp_all add: clearAll_Cons)

lemma validBit_clearAll [simp]: "validBit (clearAll fm secs) s = validBit fm s"
  by (simp add: validBit_def)

lemma validBit_update [simp]: "validBit (fm[k := b]) s = validBit fm s"
  by (simp add: validBit_def)

lemma marked_Nil [simp]: "marked fm []"
  by (simp add: marked_def)

lemma marked_Cons: "marked fm (s # secs) \<longleftrightarrow> validBit fm s \<and> fm ! nat s \<and> marked fm secs"
  by (simp add: marked_def)

lemma marked_append: "marked fm (xs @ ys) \<longleftrightarrow> marked fm xs \<and> marked fm ys"
  by (simp add: marked_def)

lemma marked_iff: "marked fm secs \<longleftrightarrow> (\<forall>s\<in>set secs. validBit fm s \<and> fm ! nat s)"
  by (simp add: marked_def list_all_iff)

lemma valid_nat: "validBit fm s \<Longrightarrow> nat s < length fm"
  by (auto simp add: validBit_def nat_less_iff)

lemma nat_eq_valid:
  "validBit fm s \<Longrightarrow> validBit fm t \<Longrightarrow> nat t = nat s \<longleftrightarrow> t = s"
  by (auto simp add: validBit_def)

lemma nth_clearAll:
  "validBit fm s \<Longrightarrow> \<forall>t\<in>set secs. validBit fm t \<Longrightarrow>
     clearAll fm secs ! nat s \<longleftrightarrow> fm ! nat s \<and> s \<notin> set secs"
proof (induction secs arbitrary: fm)
  case Nil
  then show ?case by simp
next
  case (Cons t secs)
  have v: "validBit (fm[nat t := False]) s" using Cons.prems by simp
  have w: "\<forall>u\<in>set secs. validBit (fm[nat t := False]) u" using Cons.prems by simp
  have t: "validBit fm t" using Cons.prems by simp
  have l: "nat s < length fm" using Cons.prems(1) by (rule valid_nat)
  have u: "fm[nat t := False] ! nat s \<longleftrightarrow> fm ! nat s \<and> t \<noteq> s"
    using l nat_eq_valid [OF Cons.prems(1) t] by (auto simp add: nth_list_update)
  have "clearAll fm (t # secs) ! nat s \<longleftrightarrow> fm[nat t := False] ! nat s \<and> s \<notin> set secs"
    using Cons.IH [OF v w] by (simp add: clearAll_Cons)
  with u show ?case by auto
qed

lemma marked_valid: "marked fm secs \<Longrightarrow> \<forall>t\<in>set secs. validBit fm t"
  by (simp add: marked_iff)

lemma marked_clearAll:
  assumes "marked fm xs" "marked fm ys" "set xs \<inter> set ys = {}"
  shows "marked (clearAll fm ys) xs"
proof -
  have "validBit (clearAll fm ys) s \<and> clearAll fm ys ! nat s" if "s \<in> set xs" for s
  proof -
    from that assms(1) have v: "validBit fm s" "fm ! nat s" by (simp_all add: marked_iff)
    from that assms(3) have "s \<notin> set ys" by auto
    with nth_clearAll [OF v(1) marked_valid [OF assms(2)]] v show ?thesis by simp
  qed
  then show ?thesis by (simp add: marked_iff)
qed

lemma marked_update:
  assumes "marked fm xs" "validBit fm s" "fm ! nat s" "s \<notin> set xs"
  shows "marked (fm[nat s := False]) xs"
proof -
  have "marked fm [s]" using assms(2,3) by (simp add: marked_Cons)
  from marked_clearAll [OF assms(1) this] assms(4) show ?thesis
    by (simp add: clearAll_Cons)
qed

lemma NumClear_clear:
  assumes "validBit fm s" "fm ! nat s"
  shows "NumClear (fm[nat s := False]) = NumClear fm + 1"
proof -
  have "nat s < length fm" using assms(1) by (rule valid_nat)
  from filter_Not_clear [OF this assms(2)] show ?thesis by (simp add: NumClear_def)
qed

lemma NumClear_clearAll:
  "marked fm secs \<Longrightarrow> distinct secs \<Longrightarrow>
     NumClear (clearAll fm secs) = NumClear fm + int (length secs)"
proof (induction secs arbitrary: fm)
  case Nil
  then show ?case by simp
next
  case (Cons s secs)
  from Cons.prems have a: "validBit fm s" "fm ! nat s" "marked fm secs" "s \<notin> set secs"
    "distinct secs" by (simp_all add: marked_Cons)
  from Cons.IH [OF marked_update [OF a(3,1,2,4)] a(5)] NumClear_clear [OF a(1,2)]
  show ?case by (simp add: clearAll_Cons)
qed

lemma DeallocateLeaf_ok:
  assumes "numSectors h \<le> int (length (dataSectors h))"
    and "marked (freeMap st) (drop i (take (nat (numSectors h)) (dataSectors h)))"
    and "distinct (drop i (take (nat (numSectors h)) (dataSectors h)))"
  shows "DeallocateLeaf st h i =
           Inr (st\<lparr>freeMap := clearAll (freeMap st) (drop i (take (nat (numSectors h)) (dataSectors h)))\<rparr>,
                drop i (take (nat (numSectors h)) (dataSectors h)))"
  using assms
proof (induction "nat (numSectors h) - i" arbitrary: i st)
  case 0
  then have "\<not> int i < numSectors h" by simp
  moreover from 0 have "drop i (take (nat (numSectors h)) (dataSectors h)) = []" by simp
  ultimately show ?case by (simp add: DeallocateLeaf.simps [of st h i])
next
  case (Suc d)
  let ?ds = "take (nat (numSectors h)) (dataSectors h)"
  from Suc.hyps(2) have lt: "int i < numSectors h" and d: "d = nat (numSectors h) - Suc i"
    by simp_all
  from lt Suc.prems(1) have il: "i < length ?ds" "i < length (dataSectors h)" by simp_all
  then have dr: "drop i ?ds = dataSectors h ! i # drop (Suc i) ?ds"
    using Cons_nth_drop_Suc [of i ?ds] by simp
  from Suc.prems(2,3) have m: "validBit (freeMap st) (dataSectors h ! i)"
      "freeMap st ! nat (dataSectors h ! i)"
      "marked (freeMap st) (drop (Suc i) ?ds)"
      "dataSectors h ! i \<notin> set (drop (Suc i) ?ds)" "distinct (drop (Suc i) ?ds)"
    by (simp_all add: dr marked_Cons)
  let ?st1 = "st\<lparr>freeMap := (freeMap st)[nat (dataSectors h ! i) := False]\<rparr>"
  have "marked (freeMap ?st1) (drop (Suc i) ?ds)"
    using marked_update [OF m(3,1,2,4)] by simp
  from Suc.hyps(1) [OF d Suc.prems(1) this m(5)]
  have "DeallocateLeaf ?st1 h (Suc i) =
      Inr (st\<lparr>freeMap := clearAll ((freeMap st)[nat (dataSectors h ! i) := False]) (drop (Suc i) ?ds)\<rparr>,
           drop (Suc i) ?ds)" by simp
  with lt il m(1,2) show ?case
    by (simp add: DeallocateLeaf.simps [of st h i] Test_def Clear_def dr clearAll_Cons)
qed

lemma DeallocateFrom_leaf:
  "numBytes h \<le> OneLevelSize \<Longrightarrow> DeallocateFrom st h i = Some (DeallocateLeaf st h i)"
  by (subst DeallocateFrom.simps) simp

lemma upt_suffix: "i < n \<Longrightarrow> [i..<n] = i # [Suc i..<n]"
  by (simp add: upt_conv_Cons)

text \<open>
  The loop of the interior branch, from the round \<open>i\<close> on, when each child releases
  exactly its own sectors.
\<close>

lemma DeallocateFrom_loop:
  assumes nb: "OneLevelSize < numBytes h"
    and le: "numSectors h \<le> int (length (dataSectors h))"
    and ch: "\<forall>j. j < nat (numSectors h) \<longrightarrow>
        headers st (dataSectors h ! j) = Some (child j) \<and>
        (\<forall>st'. headers st' = headers st \<and> distinct (below j) \<and> marked (freeMap st') (below j) \<longrightarrow>
           DeallocateFrom st' (child j) 0 =
             Some (Inr (st'\<lparr>freeMap := clearAll (freeMap st') (below j)\<rparr>, below j)))"
    and hs: "headers st0 = headers st"
    and secs: "secs = concat (map (\<lambda>j. below j @ [dataSectors h ! j]) [i..<nat (numSectors h)])"
    and di: "distinct secs"
    and ma: "marked (freeMap st0) secs"
  shows "DeallocateFrom st0 h i = Some (Inr (st0\<lparr>freeMap := clearAll (freeMap st0) secs\<rparr>, secs))"
  using hs secs di ma
proof (induction "nat (numSectors h) - i" arbitrary: i st0 secs)
  case 0
  then have "\<not> int i < numSectors h" "secs = []" by simp_all
  with nb show ?case by (subst DeallocateFrom.simps) simp
next
  case (Suc d)
  from Suc.hyps(2) have lt: "int i < numSectors h" and d: "d = nat (numSectors h) - Suc i"
    and ilt: "i < nat (numSectors h)" by simp_all
  let ?s = "dataSectors h ! i"
  let ?rest = "concat (map (\<lambda>j. below j @ [dataSectors h ! j]) [Suc i..<nat (numSectors h)])"
  have secs: "secs = below i @ ?s # ?rest"
    using Suc.prems(2) upt_suffix [OF ilt] by simp
  from Suc.prems(3,4) have p: "distinct (below i)" "marked (freeMap st0) (below i)"
      "validBit (freeMap st0) ?s" "?s \<notin> set (below i)"
      "distinct ?rest" "marked (freeMap st0) ?rest"
      "set ?rest \<inter> set (below i @ [?s]) = {}" "marked (freeMap st0) (below i @ [?s])"
    unfolding secs by (auto simp add: marked_append marked_Cons)
  from ch ilt have f: "FetchFrom st0 ?s = Inr (child i)"
    by (simp add: FetchFrom_def Suc.prems(1))
  from ch ilt Suc.prems(1) p(1,2)
  have c: "DeallocateFrom st0 (child i) 0 =
      Some (Inr (st0\<lparr>freeMap := clearAll (freeMap st0) (below i)\<rparr>, below i))"
    by simp
  let ?fm = "clearAll (freeMap st0) (below i @ [?s])"
  let ?st2 = "st0\<lparr>freeMap := ?fm\<rparr>"
  have cl: "Clear (clearAll (freeMap st0) (below i)) ?s = Inr ?fm"
    using p(3) by (simp add: Clear_def clearAll_snoc)
  have "marked ?fm ?rest" using marked_clearAll [OF p(6,8,7)] .
  then have "DeallocateFrom ?st2 h (Suc i) =
      Some (Inr (?st2\<lparr>freeMap := clearAll (freeMap ?st2) ?rest\<rparr>, ?rest))"
    using Suc.hyps(1) [OF d _ refl p(5), of ?st2] Suc.prems(1) by simp
  then have r: "DeallocateFrom ?st2 h (Suc i) =
      Some (Inr (st0\<lparr>freeMap := clearAll (freeMap st0) secs\<rparr>, ?rest))"
    by (simp add: secs clearAll_append clearAll_Cons)
  from lt le have "\<not> length (dataSectors h) \<le> i" by simp
  with nb lt f c cl r show ?case
    by (subst DeallocateFrom.simps) (simp add: secs)
qed

lemma Deallocate_wf:
  assumes "wfHeader hs h secs datas"
    and "headers st = hs" "distinct secs" "marked (freeMap st) secs"
  shows "DeallocateFrom st h 0 = Some (Inr (st\<lparr>freeMap := clearAll (freeMap st) secs\<rparr>, secs))"
  using assms
proof (induction arbitrary: st rule: wfHeader.induct)
  case (leaf h ds)
  have s: "(0::int) < 128" by simp
  have n: "numSectors h = - ((- numBytes h) div 128)"
    using leaf.hyps by (simp add: divRoundUp_alt [OF s] SectorSize_def)
  have "numSectors h \<le> 30"
    using ceil_mono [of "numBytes h" 3840] leaf.hyps(1,2) by (simp add: n OneLevelSize_def)
  then have le: "numSectors h \<le> int (length (dataSectors h))"
    using leaf.hyps(4) by (simp add: NumDirect_def)
  from DeallocateLeaf_ok [OF le, of st 0] leaf.hyps(5) leaf.prems(2,3) show ?case
    by (simp add: DeallocateFrom_leaf [OF leaf.hyps(2)])
next
  case (interior h child below content secs datas)
  have le: "numSectors h \<le> int (length (dataSectors h))"
    using interior.hyps(3,4) by simp
  have ch: "\<forall>j. j < nat (numSectors h) \<longrightarrow>
        headers st (dataSectors h ! j) = Some (child j) \<and>
        (\<forall>st'. headers st' = headers st \<and> distinct (below j) \<and> marked (freeMap st') (below j) \<longrightarrow>
           DeallocateFrom st' (child j) 0 =
             Some (Inr (st'\<lparr>freeMap := clearAll (freeMap st') (below j)\<rparr>, below j)))"
    using interior.IH interior.prems(1) by simp
  from DeallocateFrom_loop [OF interior.hyps(1) le ch refl interior.hyps(5) interior.prems(2,3)]
  show ?case .
qed

section \<open>The claim about Deallocate\<close>

text \<open>
  C9. Let the header \<open>hdr\<close>, stored in the sector \<open>own\<close>, be consistently allocated, with
  its own sector and the sectors below it all different and in use. Then \<open>Deallocate\<close>
  returns, and the sectors it hands to \<open>Clear\<close> are exactly the sectors below the header,
  each once, in the order of the tree: the data sectors of a leaf, and for an interior
  header the sectors of each child followed by the sector of the child's header. Its own
  sector is not among them and is still in use afterwards; every sector below it is free
  afterwards, every other bit is as before, and nothing on the disk is changed.
\<close>

theorem Deallocate_contract:
  assumes "wfHeader (headers st) hdr secs datas"
    and "headers st own = Some hdr"
    and "distinct (own # secs)"
    and "marked (freeMap st) (own # secs)"
  shows "\<exists>st'. Deallocate st hdr = Some (Inr (st', secs)) \<and>
           own \<notin> set secs \<and> freeMap st' ! nat own \<and>
           (\<forall>s\<in>set secs. \<not> freeMap st' ! nat s) \<and>
           (\<forall>s. validBit (freeMap st) s \<and> s \<notin> set secs \<longrightarrow>
                freeMap st' ! nat s = freeMap st ! nat s) \<and>
           length (freeMap st') = length (freeMap st) \<and>
           NumClear (freeMap st') = NumClear (freeMap st) + int (length secs) \<and>
           headers st' = headers st \<and> dirFiles st' = dirFiles st"
proof -
  from assms(3,4) have d: "distinct secs" "marked (freeMap st) secs" "own \<notin> set secs"
    "validBit (freeMap st) own" "freeMap st ! nat own"
    by (simp_all add: marked_Cons)
  let ?st' = "st\<lparr>freeMap := clearAll (freeMap st) secs\<rparr>"
  note v = marked_valid [OF d(2)]
  from Deallocate_wf [OF assms(1) refl d(1,2)]
  have "Deallocate st hdr = Some (Inr (?st', secs))" by (simp add: Deallocate_def)
  moreover have "freeMap ?st' ! nat own"
    using nth_clearAll [OF d(4) v] d(3,5) by simp
  moreover have "\<forall>s\<in>set secs. \<not> freeMap ?st' ! nat s"
    using nth_clearAll [OF _ v] v by simp
  moreover have "\<forall>s. validBit (freeMap st) s \<and> s \<notin> set secs \<longrightarrow>
      freeMap ?st' ! nat s = freeMap st ! nat s"
    using nth_clearAll [OF _ v] by simp
  moreover have "NumClear (freeMap ?st') = NumClear (freeMap st) + int (length secs)"
    using NumClear_clearAll [OF d(2,1)] by simp
  ultimately show ?thesis using d(3) by (intro exI [of _ ?st']) simp
qed

lemma bigDisk_marked: "marked (freeMap bigDisk) (0 # bigData0 @ [1] @ [33, 34] @ [32])"
  by (simp add: marked_def validBit_def bigDisk_freeMap bigData0_def nth_append)

lemma bigDisk_distinct: "distinct (0 # bigData0 @ [1] @ [33, 34] @ [32])"
  by (simp add: bigData0_def)

theorem Deallocate_contract_witness:
  "\<exists>st'. Deallocate bigDisk bigHdr = Some (Inr (st', bigData0 @ [1] @ [33, 34] @ [32])) \<and>
      freeMap st' ! nat 0 \<and> \<not> freeMap st' ! nat 1 \<and> \<not> freeMap st' ! nat 34 \<and>
      NumClear (freeMap st') = NumClear (freeMap bigDisk) + 34"
proof -
  from Deallocate_contract [OF wf_bigHdr bigDisk_headers(3) bigDisk_distinct bigDisk_marked]
  obtain st' where
    "Deallocate bigDisk bigHdr = Some (Inr (st', bigData0 @ [1] @ [33, 34] @ [32]))"
    "freeMap st' ! nat 0"
    "\<forall>s\<in>set (bigData0 @ [1] @ [33, 34] @ [32]). \<not> freeMap st' ! nat s"
    "NumClear (freeMap st') =
       NumClear (freeMap bigDisk) + int (length (bigData0 @ [1] @ [33, 34] @ [32]))"
    by blast
  then show ?thesis by (intro exI [of _ st']) (simp add: bigData0_length)
qed

section \<open>Consistently allocated directory trees\<close>

text \<open>
  \<open>wfTable sz hs df table secs\<close>: every entry in use of \<open>table\<close> leads to a consistently
  allocated header on the disk \<open>hs\<close>; the file of a subdirectory holds, in \<open>df\<close>, a table of
  \<open>sz\<close> entries that is consistent in turn. \<open>secs\<close> lists the sectors reached from the
  table: for a file the sectors of its header and then its header sector, for a
  subdirectory first the sectors reached from its table.
\<close>

inductive wfTable ::
  "nat \<Rightarrow> (int \<rightharpoonup> FileHeader) \<Rightarrow> (int \<Rightarrow> DirectoryEntry list) \<Rightarrow> DirectoryEntry list \<Rightarrow> int list \<Rightarrow> bool"
  for sz :: nat and hs :: "int \<rightharpoonup> FileHeader" and df :: "int \<Rightarrow> DirectoryEntry list" where
  tblEmpty: "wfTable sz hs df [] []"
| tblFree: "\<lbrakk>\<not> inUse e; wfTable sz hs df es secs\<rbrakk> \<Longrightarrow> wfTable sz hs df (e # es) secs"
| tblFile:
    "\<lbrakk>inUse e; \<not> isDir e; hs (sector e) = Some h; wfHeader hs h below datas;
      wfTable sz hs df es secs\<rbrakk>
     \<Longrightarrow> wfTable sz hs df (e # es) (below @ sector e # secs)"
| tblDir:
    "\<lbrakk>inUse e; isDir e; hs (sector e) = Some h; wfHeader hs h below datas;
      length (df (sector e)) = sz; wfTable sz hs df (df (sector e)) inside;
      wfTable sz hs df es secs\<rbrakk>
     \<Longrightarrow> wfTable sz hs df (e # es) (inside @ below @ sector e # secs)"

lemma FindIndex_self:
  assumes "\<forall>e\<in>set pre. \<not> inUse e" "inUse e"
  shows "FindIndex n (pre @ e # es) (name e) = int (length pre)"
proof -
  have "slotMatches n (pre @ e # es) (name e) (length pre)"
    using assms(2) by (simp add: slotMatches_def strncmpEq_def)
  moreover have "\<not> slotMatches n (pre @ e # es) (name e) j" if "j < length pre" for j
    using assms(1) that by (simp add: slotMatches_def nth_append)
  ultimately show ?thesis by (simp add: FindIndex_hit)
qed

lemma Remove_self:
  assumes "\<forall>e\<in>set pre. \<not> inUse e" "inUse e"
  shows "snd (Remove n (pre @ e # es) (name e)) = (pre @ [e\<lparr>inUse := False\<rparr>]) @ es"
  using FindIndex_self [OF assms, of n es] by (simp add: Remove_def)

lemma DirectoryFetchFrom_full:
  "length (dirFiles st s) = sz \<Longrightarrow> DirectoryFetchFrom sz st s = dirFiles st s"
  by (simp add: DirectoryFetchFrom_def Directory_def)

lemma DirectoryWriteBack_simps [simp]:
  "headers (DirectoryWriteBack st table s) = headers st"
  "freeMap (DirectoryWriteBack st table s) = freeMap st"
  "t \<noteq> s \<Longrightarrow> dirFiles (DirectoryWriteBack st table s) t = dirFiles st t"
  by (simp_all add: DirectoryWriteBack_def)

lemma RecursiveRemoveFrom_end:
  "\<not> i < length table \<Longrightarrow> RecursiveRemoveFrom n sz st table i = Some (Inr (table, st, []))"
  by (subst RecursiveRemoveFrom.simps) simp

lemma RecursiveRemoveFrom_skip:
  "i < length table \<Longrightarrow> \<not> inUse (table ! i) \<Longrightarrow>
     RecursiveRemoveFrom n sz st table i = RecursiveRemoveFrom n sz st table (Suc i)"
  by (subst RecursiveRemoveFrom.simps) simp

lemma RecursiveRemoveFrom_file:
  assumes "i < length table" "inUse (table ! i)" "\<not> isDir (table ! i)"
    and "FetchFrom st (sector (table ! i)) = Inr hdr"
    and "Deallocate st hdr = Some (Inr (st1, below))"
    and "Clear (freeMap st1) (sector (table ! i)) = Inr fm"
    and "RecursiveRemoveFrom n sz (st1\<lparr>freeMap := fm\<rparr>)
           (snd (Remove n table (name (table ! i)))) (Suc i) = Some (Inr (table', st', cleared))"
  shows "RecursiveRemoveFrom n sz st table i =
           Some (Inr (table', st', below @ sector (table ! i) # cleared))"
  using assms by (subst RecursiveRemoveFrom.simps) simp

lemma RecursiveRemoveFrom_subdir:
  assumes "i < length table" "inUse (table ! i)" "isDir (table ! i)"
    and "OpenFile st (sector (table ! i)) = Inr dh"
    and "RecursiveRemoveFrom n sz st (DirectoryFetchFrom sz st (sector (table ! i))) 0 =
           Some (Inr (next_level_dir, st1, inside))"
    and "FetchFrom (DirectoryWriteBack st1 next_level_dir (sector (table ! i))) (sector (table ! i)) =
           Inr hdr"
    and "Deallocate (DirectoryWriteBack st1 next_level_dir (sector (table ! i))) hdr =
           Some (Inr (st2, below))"
    and "Clear (freeMap st2) (sector (table ! i)) = Inr fm"
    and "RecursiveRemoveFrom n sz (st2\<lparr>freeMap := fm\<rparr>)
           (snd (Remove n table (name (table ! i)))) (Suc i) = Some (Inr (table', st', cleared))"
  shows "RecursiveRemoveFrom n sz st table i =
           Some (Inr (table', st', inside @ below @ sector (table ! i) # cleared))"
  using assms by (subst RecursiveRemoveFrom.simps) simp

lemma RecursiveRemove_wf:
  assumes "wfTable sz hs df suf secs"
    and "headers st = hs" "\<forall>s\<in>set secs. dirFiles st s = df s"
    and "distinct secs" "marked (freeMap st) secs" "\<forall>e\<in>set pre. \<not> inUse e"
  shows "\<exists>table' st'.
           RecursiveRemoveFrom n sz st (pre @ suf) (length pre) = Some (Inr (table', st', secs)) \<and>
           freeMap st' = clearAll (freeMap st) secs \<and> headers st' = hs \<and>
           (\<forall>s. s \<notin> set secs \<longrightarrow> dirFiles st' s = dirFiles st s) \<and>
           length table' = length (pre @ suf) \<and> (\<forall>e\<in>set table'. \<not> inUse e)"
  using assms
proof (induction arbitrary: st pre rule: wfTable.induct)
  case tblEmpty
  then show ?case by (simp add: RecursiveRemoveFrom_end)
next
  case (tblFree e es secs)
  have pre': "\<forall>x\<in>set (pre @ [e]). \<not> inUse x" using tblFree.hyps(1) tblFree.prems(5) by simp
  from tblFree.IH [OF tblFree.prems(1-4) pre'] obtain table' st' where
    r: "RecursiveRemoveFrom n sz st ((pre @ [e]) @ es) (length (pre @ [e])) =
          Some (Inr (table', st', secs))"
    and p: "freeMap st' = clearAll (freeMap st) secs" "headers st' = hs"
      "\<forall>s. s \<notin> set secs \<longrightarrow> dirFiles st' s = dirFiles st s"
      "length table' = length ((pre @ [e]) @ es)" "\<forall>e\<in>set table'. \<not> inUse e"
    by blast
  have "RecursiveRemoveFrom n sz st (pre @ e # es) (length pre) =
        RecursiveRemoveFrom n sz st (pre @ e # es) (Suc (length pre))"
    using tblFree.hyps(1) by (intro RecursiveRemoveFrom_skip) simp_all
  with r p show ?case by simp
next
  case (tblFile e h below datas es secs)
  let ?table = "pre @ e # es"
  let ?i = "length pre"
  let ?e' = "e\<lparr>inUse := False\<rparr>"
  let ?fm = "freeMap st"
  have ti: "?i < length ?table" "?table ! ?i = e" by simp_all
  from tblFile.prems(3,4) have d: "distinct below" "marked ?fm below"
      "validBit ?fm (sector e)" "distinct secs" "marked ?fm secs"
      "set secs \<inter> set (below @ [sector e]) = {}" "marked ?fm (below @ [sector e])"
    by (auto simp add: marked_append marked_Cons)
  let ?st1 = "st\<lparr>freeMap := clearAll ?fm below\<rparr>"
  let ?fm2 = "clearAll ?fm (below @ [sector e])"
  let ?st2 = "st\<lparr>freeMap := ?fm2\<rparr>"
  have f: "FetchFrom st (sector e) = Inr h"
    using tblFile.hyps(3) tblFile.prems(1) by (simp add: FetchFrom_def)
  have de: "Deallocate st h = Some (Inr (?st1, below))"
    using Deallocate_wf [OF tblFile.hyps(4) tblFile.prems(1) d(1,2)] by (simp add: Deallocate_def)
  have cl: "Clear (freeMap ?st1) (sector e) = Inr ?fm2"
    using d(3) by (simp add: Clear_def clearAll_snoc)
  have pre': "\<forall>x\<in>set (pre @ [?e']). \<not> inUse x" using tblFile.prems(5) by simp
  have m2: "marked (freeMap ?st2) secs" using marked_clearAll [OF d(5,7,6)] by simp
  have h2: "headers ?st2 = hs" using tblFile.prems(1) by simp
  have a2: "\<forall>s\<in>set secs. dirFiles ?st2 s = df s" using tblFile.prems(2) by simp
  from tblFile.IH [OF h2 a2 d(4) m2 pre'] obtain table' st' where
    r: "RecursiveRemoveFrom n sz ?st2 ((pre @ [?e']) @ es) (length (pre @ [?e'])) =
          Some (Inr (table', st', secs))"
    and p: "freeMap st' = clearAll (freeMap ?st2) secs" "headers st' = hs"
      "\<forall>s. s \<notin> set secs \<longrightarrow> dirFiles st' s = dirFiles ?st2 s"
      "length table' = length ((pre @ [?e']) @ es)" "\<forall>e\<in>set table'. \<not> inUse e"
    by blast
  have rm: "snd (Remove n ?table (name e)) = (pre @ [?e']) @ es"
    using Remove_self [OF tblFile.prems(5) tblFile.hyps(1)] .
  have r': "RecursiveRemoveFrom n sz (?st1\<lparr>freeMap := ?fm2\<rparr>)
      (snd (Remove n ?table (name e))) (Suc ?i) = Some (Inr (table', st', secs))"
    using r by (simp add: rm)
  have "RecursiveRemoveFrom n sz st ?table ?i =
      Some (Inr (table', st', below @ sector e # secs))"
    using RecursiveRemoveFrom_file [of ?i ?table st h ?st1 below ?fm2 n sz table' st' secs]
      tblFile.hyps(1,2) f de cl r'
    by simp
  moreover have "freeMap st' = clearAll ?fm (below @ sector e # secs)"
    using p(1) by (simp add: clearAll_append clearAll_Cons)
  ultimately show ?case using p(2-5) by simp
next
  case (tblDir e h below datas inside es secs)
  let ?table = "pre @ e # es"
  let ?i = "length pre"
  let ?e' = "e\<lparr>inUse := False\<rparr>"
  let ?fm = "freeMap st"
  let ?s = "sector e"
  have ti: "?i < length ?table" "?table ! ?i = e" by simp_all
  from tblDir.prems(3,4) have d: "distinct inside" "marked ?fm inside"
      "distinct below" "marked ?fm below" "set below \<inter> set inside = {}"
      "validBit ?fm ?s" "?s \<notin> set inside" "distinct secs" "marked ?fm secs"
      "set secs \<inter> set (inside @ below @ [?s]) = {}"
      "marked ?fm (inside @ below @ [?s])"
    by (auto simp add: marked_append marked_Cons)
  have op: "OpenFile st ?s = Inr h"
    using tblDir.hyps(3) tblDir.prems(1) by (simp add: OpenFile_def FetchFrom_def)
  have dfs: "dirFiles st ?s = df ?s" using tblDir.prems(2) by simp
  have ft: "DirectoryFetchFrom sz st ?s = df ?s"
    using DirectoryFetchFrom_full [of st ?s sz] tblDir.hyps(5) by (simp add: dfs)
  have ai: "\<forall>s\<in>set inside. dirFiles st s = df s" using tblDir.prems(2) by simp
  have "\<forall>x\<in>set ([]::DirectoryEntry list). \<not> inUse x" by simp
  from tblDir.IH(1) [OF tblDir.prems(1) ai d(1,2) this] obtain sub st1 where
    r1: "RecursiveRemoveFrom n sz st (df ?s) 0 = Some (Inr (sub, st1, inside))"
    and p1: "freeMap st1 = clearAll ?fm inside" "headers st1 = hs"
      "\<forall>s. s \<notin> set inside \<longrightarrow> dirFiles st1 s = dirFiles st s"
    by auto
  let ?sw = "DirectoryWriteBack st1 sub ?s"
  have f: "FetchFrom ?sw ?s = Inr h"
    using tblDir.hyps(3) p1(2) by (simp add: FetchFrom_def)
  have mb: "marked (freeMap ?sw) below" using marked_clearAll [OF d(4,2,5)] p1(1) by simp
  have hw: "headers ?sw = hs" using p1(2) by simp
  let ?st2 = "?sw\<lparr>freeMap := clearAll (freeMap ?sw) below\<rparr>"
  have de: "Deallocate ?sw h = Some (Inr (?st2, below))"
    using Deallocate_wf [OF tblDir.hyps(4) hw d(3) mb] by (simp add: Deallocate_def)
  let ?fm3 = "clearAll ?fm (inside @ below @ [?s])"
  let ?st3 = "?sw\<lparr>freeMap := ?fm3\<rparr>"
  have cl: "Clear (freeMap ?st2) ?s = Inr ?fm3"
    using d(6) p1(1) by (simp add: Clear_def clearAll_append clearAll_Cons)
  have pre': "\<forall>x\<in>set (pre @ [?e']). \<not> inUse x" using tblDir.prems(5) by simp
  have m3: "marked (freeMap ?st3) secs" using marked_clearAll [OF d(9,11,10)] by simp
  have h3: "headers ?st3 = hs" using p1(2) by simp
  have a3: "\<forall>s\<in>set secs. dirFiles ?st3 s = df s"
  proof
    fix s assume s: "s \<in> set secs"
    with d(10) have "s \<noteq> ?s" "s \<notin> set inside" by auto
    with p1(3) tblDir.prems(2) s show "dirFiles ?st3 s = df s" by simp
  qed
  from tblDir.IH(2) [OF h3 a3 d(8) m3 pre'] obtain table' st' where
    r: "RecursiveRemoveFrom n sz ?st3 ((pre @ [?e']) @ es) (length (pre @ [?e'])) =
          Some (Inr (table', st', secs))"
    and p: "freeMap st' = clearAll (freeMap ?st3) secs" "headers st' = hs"
      "\<forall>s. s \<notin> set secs \<longrightarrow> dirFiles st' s = dirFiles ?st3 s"
      "length table' = length ((pre @ [?e']) @ es)" "\<forall>e\<in>set table'. \<not> inUse e"
    by blast
  have rm: "snd (Remove n ?table (name e)) = (pre @ [?e']) @ es"
    using Remove_self [OF tblDir.prems(5) tblDir.hyps(1)] .
  have r': "RecursiveRemoveFrom n sz (?st2\<lparr>freeMap := ?fm3\<rparr>)
      (snd (Remove n ?table (name e))) (Suc ?i) = Some (Inr (table', st', secs))"
    using r by (simp add: rm)
  have "RecursiveRemoveFrom n sz st ?table ?i =
      Some (Inr (table', st', inside @ below @ ?s # secs))"
    using RecursiveRemoveFrom_subdir
        [of ?i ?table st h n sz sub st1 inside h ?st2 below ?fm3 table' st' secs]
      tblDir.hyps(1,2) op r1 f de cl r' ft
    by simp
  moreover have "freeMap st' = clearAll ?fm (inside @ below @ ?s # secs)"
    using p(1) by (simp add: clearAll_append clearAll_Cons)
  moreover have "dirFiles st' s = dirFiles st s" if "s \<notin> set (inside @ below @ ?s # secs)" for s
    using that p(3) p1(3) by simp
  ultimately show ?case using p(2,4,5) by simp
qed

section \<open>The claim about RecursiveRemove\<close>

text \<open>
  C2. Let the table be that of a consistently allocated directory tree whose sectors are
  all different and in use. Then \<open>RecursiveRemove\<close> returns, and the sectors it hands to
  \<open>Clear\<close> are exactly the sectors reached from the entries in use, each once: for a
  file the sectors of its index tree and data and its header sector, for a subdirectory
  the sectors reached from its own table, the sectors of its table file and its header
  sector. Afterwards no entry of the table is in use, every one of those sectors is free,
  every other bit of the bitmap is as before, and the number of free sectors has grown by
  the number of those sectors.
\<close>

theorem RecursiveRemove_contract:
  assumes "wfTable sz (headers st) (dirFiles st) table secs"
    and "distinct secs"
    and "marked (freeMap st) secs"
  shows "\<exists>table' st'.
           RecursiveRemove n sz st table = Some (Inr (table', st', secs)) \<and>
           length table' = length table \<and> (\<forall>e\<in>set table'. \<not> inUse e) \<and>
           (\<forall>s\<in>set secs. \<not> freeMap st' ! nat s) \<and>
           (\<forall>s. validBit (freeMap st) s \<and> s \<notin> set secs \<longrightarrow>
                freeMap st' ! nat s = freeMap st ! nat s) \<and>
           length (freeMap st') = length (freeMap st) \<and>
           NumClear (freeMap st') = NumClear (freeMap st) + int (length secs) \<and>
           headers st' = headers st"
proof -
  have e: "\<forall>x\<in>set ([]::DirectoryEntry list). \<not> inUse x" by simp
  have a: "\<forall>s\<in>set secs. dirFiles st s = dirFiles st s" by simp
  from RecursiveRemove_wf [OF assms(1) refl a assms(2,3) e, of n] obtain table' st' where
    r: "RecursiveRemoveFrom n sz st table 0 = Some (Inr (table', st', secs))"
    and p: "freeMap st' = clearAll (freeMap st) secs" "headers st' = headers st"
      "length table' = length table" "\<forall>e\<in>set table'. \<not> inUse e"
    by auto
  note v = marked_valid [OF assms(3)]
  have "\<forall>s\<in>set secs. \<not> freeMap st' ! nat s"
    using nth_clearAll [OF _ v] v by (simp add: p(1))
  moreover have "\<forall>s. validBit (freeMap st) s \<and> s \<notin> set secs \<longrightarrow>
      freeMap st' ! nat s = freeMap st ! nat s"
    using nth_clearAll [OF _ v] by (simp add: p(1))
  moreover have "NumClear (freeMap st') = NumClear (freeMap st) + int (length secs)"
    using NumClear_clearAll [OF assms(3,2)] by (simp add: p(1))
  ultimately show ?thesis
    using r p by (intro exI [of _ table'] exI [of _ st']) (simp add: RecursiveRemove_def)
qed

section \<open>A small directory tree\<close>

text \<open>
  A device of 16 sectors. The root table holds the file \<open>a\<close> (header in sector 2, data
  in 3 and 4) and the subdirectory \<open>d\<close> (header in sector 5, table file in sector 6),
  which holds the file \<open>b\<close> (header in sector 7, data in 8).
\<close>

definition leafHdr :: "int \<Rightarrow> int list \<Rightarrow> FileHeader" where
  "leafHdr nb ds =
     \<lparr>numBytes = nb, numSectors = divRoundUp nb SectorSize,
      dataSectors = ds @ replicate (NumDirect - length ds) (- 1)\<rparr>"

definition treeDisk :: fsys where
  "treeDisk =
     \<lparr>freeMap = replicate 9 True @ replicate 7 False,
      headers = (\<lambda>s. if s = 2 then Some (leafHdr 200 [3, 4])
                     else if s = 5 then Some (leafHdr 40 [6])
                     else if s = 7 then Some (leafHdr 100 [8])
                     else if 0 \<le> s \<and> s < 16 then Some newFileHeader else None),
      dirFiles = (\<lambda>s. if s = 5 then [usedEntry ''b'' 7 False, emptyEntry] else [])\<rparr>"

definition treeRoot :: "DirectoryEntry list" where
  "treeRoot = [usedEntry ''a'' 2 False, usedEntry ''d'' 5 True]"

lemma wf_leafHdr:
  assumes "0 \<le> nb" "nb \<le> OneLevelSize" "int (length ds) = divRoundUp nb SectorSize"
    and "length ds \<le> NumDirect"
  shows "wfHeader hs (leafHdr nb ds) ds ds"
  using assms by (intro wfHeader.leaf) (simp_all add: leafHdr_def)

lemma treeDisk_headers:
  "wfHeader (headers treeDisk) (leafHdr 200 [3, 4]) [3, 4] [3, 4]"
  "wfHeader (headers treeDisk) (leafHdr 40 [6]) [6] [6]"
  "wfHeader (headers treeDisk) (leafHdr 100 [8]) [8] [8]"
  by (rule wf_leafHdr;
      simp add: OneLevelSize_def SectorSize_def NumDirect_def divRoundUp_def cdiv_def cmod_def)+

lemma wfTable_usedFile:
  assumes "hs s = Some h" "wfHeader hs h below datas" "wfTable sz hs df es secs"
  shows "wfTable sz hs df (usedEntry nm s False # es) (below @ s # secs)"
  using wfTable.tblFile [of "usedEntry nm s False" hs h below datas sz df es secs] assms
  by (simp add: usedEntry_def)

lemma wfTable_usedDir:
  assumes "hs s = Some h" "wfHeader hs h below datas" "length (df s) = sz"
    and "wfTable sz hs df (df s) inside" "wfTable sz hs df es secs"
  shows "wfTable sz hs df (usedEntry nm s True # es) (inside @ below @ s # secs)"
  using wfTable.tblDir [of "usedEntry nm s True" hs h below datas df sz inside es secs] assms
  by (simp add: usedEntry_def)

lemma wfTable_emptyEntry:
  "wfTable sz hs df es secs \<Longrightarrow> wfTable sz hs df (emptyEntry # es) secs"
  by (rule wfTable.tblFree) (simp add: emptyEntry_def)

lemma treeDisk_at:
  "headers treeDisk 2 = Some (leafHdr 200 [3, 4])"
  "headers treeDisk 5 = Some (leafHdr 40 [6])"
  "headers treeDisk 7 = Some (leafHdr 100 [8])"
  "dirFiles treeDisk 5 = [usedEntry ''b'' 7 False, emptyEntry]"
  by (simp_all add: treeDisk_def)

lemma wf_treeInner:
  "wfTable 2 (headers treeDisk) (dirFiles treeDisk) [usedEntry ''b'' 7 False, emptyEntry]
     ([8] @ 7 # [])"
  by (intro wfTable_usedFile [OF treeDisk_at(3) treeDisk_headers(3)] wfTable_emptyEntry
        wfTable.tblEmpty)

lemma wf_treeRoot:
  "wfTable 2 (headers treeDisk) (dirFiles treeDisk) treeRoot
     ([3, 4] @ 2 # ([8] @ 7 # []) @ [6] @ 5 # [])"
proof -
  have i: "wfTable 2 (headers treeDisk) (dirFiles treeDisk) (dirFiles treeDisk 5) ([8] @ 7 # [])"
    unfolding treeDisk_at(4) by (rule wf_treeInner)
  have l: "length (dirFiles treeDisk 5) = 2" by (simp add: treeDisk_at(4))
  show ?thesis
    unfolding treeRoot_def
    by (intro wfTable_usedFile [OF treeDisk_at(1) treeDisk_headers(1)]
          wfTable_usedDir [OF treeDisk_at(2) treeDisk_headers(2) l i] wfTable.tblEmpty)
qed

lemma treeDisk_marked: "marked (freeMap treeDisk) [3, 4, 2, 8, 7, 6, 5]"
  by (simp add: marked_def validBit_def treeDisk_def nth_append)

theorem RecursiveRemove_contract_witness:
  "\<exists>table' st'.
     RecursiveRemove 9 2 treeDisk treeRoot = Some (Inr (table', st', [3, 4, 2, 8, 7, 6, 5])) \<and>
     map inUse table' = [False, False] \<and>
     NumClear (freeMap treeDisk) = 7 \<and> NumClear (freeMap st') = 14 \<and>
     \<not> freeMap st' ! nat 5 \<and> freeMap st' ! nat 1"
proof -
  have w: "wfTable 2 (headers treeDisk) (dirFiles treeDisk) treeRoot [3, 4, 2, 8, 7, 6, 5]"
    using wf_treeRoot by simp
  have d: "distinct [3, 4, 2, 8, 7, 6, (5::int)]" by simp
  have n: "NumClear (freeMap treeDisk) = 7" by (simp add: treeDisk_def NumClear_def)
  have v: "validBit (freeMap treeDisk) 1" "freeMap treeDisk ! nat 1"
    by (simp_all add: treeDisk_def validBit_def nth_append)
  from RecursiveRemove_contract [OF w d treeDisk_marked, of 9] obtain table' st' where
    r: "RecursiveRemove 9 2 treeDisk treeRoot = Some (Inr (table', st', [3, 4, 2, 8, 7, 6, 5]))"
    and p: "length table' = length treeRoot" "\<forall>e\<in>set table'. \<not> inUse e"
      "\<forall>s\<in>set [3, 4, 2, 8, 7, 6, 5]. \<not> freeMap st' ! nat s"
      "\<forall>s. validBit (freeMap treeDisk) s \<and> s \<notin> set [3, 4, 2, 8, 7, 6, 5] \<longrightarrow>
           freeMap st' ! nat s = freeMap treeDisk ! nat s"
      "NumClear (freeMap st') =
         NumClear (freeMap treeDisk) + int (length [3, 4, 2, 8, 7, 6, (5::int)])"
    by blast
  from p(1,2) have "map inUse table' = [False, False]"
    by (cases table'; cases "tl table'") (auto simp add: treeRoot_def)
  moreover from p(4) [rule_format, of 1] v have "freeMap st' ! nat 1" by simp
  moreover from p(3) have "\<not> freeMap st' ! nat 5" by simp
  ultimately show ?thesis using r p(5) n by (intro exI [of _ table'] exI [of _ st']) simp
qed

end
